theory Spec2Isabelle
  imports Main "HOL-Library.Char_ord" "HOL-Library.List_Lexorder" "HOL-Library.Product_Lexorder"
    "HOL-Library.Code_Target_Nat"
begin

section \<open>Strings\<close>

text \<open>
  A JavaScript string is modelled as a \<^typ>\<open>string\<close>, one \<^typ>\<open>char\<close> per code unit; only
  code units below 256 are representable. \<open>isDigit\<close> is the regular expression class
  \<^verbatim>\<open>\d\<close> (so \<^verbatim>\<open>\D\<close> is its complement), \<open>isWhiteSpace\<close> the characters that
  \<^verbatim>\<open>String.prototype.trimEnd\<close> removes (TAB, LF, VT, FF, CR, space, NBSP).
\<close>

definition isDigit :: "char \<Rightarrow> bool" where
  "isDigit c \<longleftrightarrow> 48 \<le> (of_char c :: nat) \<and> (of_char c :: nat) \<le> 57"

definition isWhiteSpace :: "char \<Rightarrow> bool" where
  "isWhiteSpace c \<longleftrightarrow> (of_char c :: nat) \<in> {9, 10, 11, 12, 13, 32, 160}"

definition trimEnd :: "string \<Rightarrow> string" where
  "trimEnd s = rev (dropWhile isWhiteSpace (rev s))"

subsection \<open>Utils.ts: versionClear\<close>

text \<open>
  \<^verbatim>\<open>version.replace(/^\D+/, "").trimEnd()\<close>: the longest prefix without a digit is
  removed, then the trailing white space.
\<close>

definition versionClear :: "string \<Rightarrow> string" where
  "versionClear version = trimEnd (dropWhile (\<lambda>c. \<not> isDigit c) version)"

section \<open>The semver library, as far as this module uses it\<close>

text \<open>
  \<^verbatim>\<open>coerce\<close>, \<^verbatim>\<open>gt\<close>, \<^verbatim>\<open>maxSatisfying\<close> and \<^verbatim>\<open>prerelease\<close> come from the npm
  package \<^verbatim>\<open>semver\<close> (release line 7, strict mode). They are written out here from
  the library's behaviour: version parsing and comparison in full, ranges for the shapes
  described below. What the library does on any other range, and \<^verbatim>\<open>coerce\<close> on a
  string that is not a version, is the parameter \<open>lib\<close> of the functions that need it.
\<close>

subsection \<open>Versions\<close>

text \<open>
  A prerelease identifier, as a version object holds it: a JavaScript number or a
  string. Two identifiers are equal as values of this type exactly when \<^verbatim>\<open>===\<close> holds
  of them.
\<close>

datatype ident = Num nat | Str string

record SemVer =
  major :: nat
  minor :: nat
  patch :: nat
  prerelease :: "ident list"
  build :: "string list"

definition MAX_LENGTH :: nat where
  "MAX_LENGTH = 256"

definition MAX_SAFE_INTEGER :: nat where
  "MAX_SAFE_INTEGER = 9007199254740991"

definition isLetter :: "char \<Rightarrow> bool" where
  "isLetter c \<longleftrightarrow> 65 \<le> (of_char c :: nat) \<and> (of_char c :: nat) \<le> 90
     \<or> 97 \<le> (of_char c :: nat) \<and> (of_char c :: nat) \<le> 122"

definition isIdentChar :: "char \<Rightarrow> bool" where
  "isIdentChar c \<longleftrightarrow> isDigit c \<or> isLetter c \<or> c = CHR ''-''"

definition trim :: "string \<Rightarrow> string" where
  "trim s = trimEnd (dropWhile isWhiteSpace s)"

text \<open>\<^verbatim>\<open>String.prototype.split\<close> with a one-character separator.\<close>

fun split :: "char \<Rightarrow> string \<Rightarrow> string list" where
  "split sep [] = [[]]"
| "split sep (c # cs) =
     (if c = sep then [] # split sep cs
      else (case split sep cs of [] \<Rightarrow> [[c]] | w # ws \<Rightarrow> (c # w) # ws))"

definition digitValue :: "char \<Rightarrow> nat" where
  "digitValue c = of_char c - 48"

definition toNumber :: "string \<Rightarrow> nat" where
  "toNumber ds = foldl (\<lambda>n c. 10 * n + digitValue c) 0 ds"

text \<open>\<^verbatim>\<open>0|[1-9]\d*\<close>\<close>

definition isNumericIdentifier :: "string \<Rightarrow> bool" where
  "isNumericIdentifier s \<longleftrightarrow> s \<noteq> [] \<and> list_all isDigit s \<and> (s = ''0'' \<or> hd s \<noteq> CHR ''0'')"

text \<open>\<^verbatim>\<open>0|[1-9]\d*|\d*[a-zA-Z-][a-zA-Z0-9-]*\<close>\<close>

definition isPrereleaseIdentifier :: "string \<Rightarrow> bool" where
  "isPrereleaseIdentifier s \<longleftrightarrow>
     s \<noteq> [] \<and> list_all isIdentChar s \<and> (list_all isDigit s \<longrightarrow> isNumericIdentifier s)"

text \<open>\<^verbatim>\<open>[0-9A-Za-z-]+\<close>\<close>

definition isBuildIdentifier :: "string \<Rightarrow> bool" where
  "isBuildIdentifier s \<longleftrightarrow> s \<noteq> [] \<and> list_all isIdentChar s"

text \<open>
  The number a decimal numeral denotes in JavaScript, an IEEE 754 double: the natural
  number itself up to \<open>2\<^sup>5\<^sup>3\<close>; above, the nearest number whose significand has 53
  bits, ties going to the even significand. (A numeral of at most \<open>MAX_LENGTH\<close> digits
  does not overflow.)
\<close>

function bitLength :: "int \<Rightarrow> int" where
  "bitLength n = (if n \<le> 0 then 0 else bitLength (n div 2) + 1)"
  by pat_completeness auto
termination
  by (relation "measure nat") auto

declare bitLength.simps [simp del]

definition toDouble :: "nat \<Rightarrow> nat" where
  "toDouble n =
     (if n \<le> MAX_SAFE_INTEGER then n
      else
        let e = nat (bitLength (int n) - 53);
            q = n div 2 ^ e;
            r = n mod 2 ^ e
        in if 2 ^ e < 2 * r \<or> (2 * r = 2 ^ e \<and> odd q) then (q + 1) * 2 ^ e else q * 2 ^ e)"

text \<open>\<^verbatim>\<open>/^[0-9]+$/\<close>\<close>

definition isNumeric :: "string \<Rightarrow> bool" where
  "isNumeric s \<longleftrightarrow> s \<noteq> [] \<and> list_all isDigit s"

text \<open>
  The constructor of a version turns a prerelease identifier made of digits into the
  number \<^verbatim>\<open>+id\<close> if that number is below \<open>MAX_SAFE_INTEGER\<close>; every other identifier
  stays the string it is, also one made of digits that denote \<open>2\<^sup>5\<^sup>3 - 1\<close> or more.
\<close>

definition toIdent :: "string \<Rightarrow> ident" where
  "toIdent s =
     (if isNumeric s \<and> toDouble (toNumber s) < MAX_SAFE_INTEGER then Num (toDouble (toNumber s))
      else Str s)"

text \<open>
  The three parts of a version string: what precedes the first \<^verbatim>\<open>-\<close> or \<^verbatim>\<open>+\<close>, the
  prerelease tag after a \<^verbatim>\<open>-\<close> up to the first \<^verbatim>\<open>+\<close>, and the build metadata after
  the first \<^verbatim>\<open>+\<close>. A part that is absent is \<open>None\<close>.
\<close>

definition mainPart :: "string \<Rightarrow> string" where
  "mainPart s = takeWhile (\<lambda>c. c \<noteq> CHR ''-'' \<and> c \<noteq> CHR ''+'') s"

definition prereleasePart :: "string \<Rightarrow> string option" where
  "prereleasePart s =
     (case dropWhile (\<lambda>c. c \<noteq> CHR ''-'' \<and> c \<noteq> CHR ''+'') s of
        c # r \<Rightarrow> if c = CHR ''-'' then Some (takeWhile (\<lambda>c. c \<noteq> CHR ''+'') r) else None
      | [] \<Rightarrow> None)"

definition buildPart :: "string \<Rightarrow> string option" where
  "buildPart s =
     (case dropWhile (\<lambda>c. c \<noteq> CHR ''+'') s of c # r \<Rightarrow> Some r | [] \<Rightarrow> None)"

definition validTags :: "string \<Rightarrow> bool" where
  "validTags s \<longleftrightarrow>
     (case prereleasePart s of None \<Rightarrow> True | Some p \<Rightarrow> list_all isPrereleaseIdentifier (split CHR ''.'' p)) \<and>
     (case buildPart s of None \<Rightarrow> True | Some b \<Rightarrow> list_all isBuildIdentifier (split CHR ''.'' b))"

definition tagsOf :: "string \<Rightarrow> ident list \<times> string list" where
  "tagsOf s =
     ((case prereleasePart s of None \<Rightarrow> [] | Some p \<Rightarrow> map toIdent (split CHR ''.'' p)),
      (case buildPart s of None \<Rightarrow> [] | Some b \<Rightarrow> split CHR ''.'' b))"

text \<open>
  \<^verbatim>\<open>new SemVer(version)\<close> inside \<^verbatim>\<open>try\<close>, as \<^verbatim>\<open>parse\<close> does it: \<open>None\<close> when the
  constructor throws. The string may be at most \<open>MAX_LENGTH\<close> long; trimmed, it must
  match \<^verbatim>\<open>^v?M.m.p(-prerelease)?(+build)?$\<close>; no number may exceed
  \<open>MAX_SAFE_INTEGER\<close>.
\<close>

definition parse :: "string \<Rightarrow> SemVer option" where
  "parse version =
     (if length version > MAX_LENGTH then None
      else
        let t = trim version;
            s = (case t of c # r \<Rightarrow> if c = CHR ''v'' then r else t | [] \<Rightarrow> t)
        in case split CHR ''.'' (mainPart s) of
             [M, m, p] \<Rightarrow>
               if isNumericIdentifier M \<and> isNumericIdentifier m \<and> isNumericIdentifier p \<and>
                  validTags s \<and>
                  toNumber M \<le> MAX_SAFE_INTEGER \<and> toNumber m \<le> MAX_SAFE_INTEGER \<and>
                  toNumber p \<le> MAX_SAFE_INTEGER
               then Some \<lparr>major = toNumber M, minor = toNumber m, patch = toNumber p,
                          prerelease = fst (tagsOf s), build = snd (tagsOf s)\<rparr>
               else None
           | _ \<Rightarrow> None)"

text \<open>\<^verbatim>\<open>prerelease(version)\<close>: the prerelease identifiers, or null.\<close>

definition prerelease_of :: "string \<Rightarrow> ident list option" where
  "prerelease_of version =
     (case parse version of
        Some parsed \<Rightarrow> if prerelease parsed \<noteq> [] then Some (prerelease parsed) else None
      | None \<Rightarrow> None)"

subsection \<open>Comparison\<close>

definition compareNumbers :: "nat \<Rightarrow> nat \<Rightarrow> int" where
  "compareNumbers a b = (if a = b then 0 else if a < b then - 1 else 1)"

text \<open>
  \<^verbatim>\<open>compareIdentifiers(a, b)\<close>. An identifier is numeric when it is a number or a
  string of digits. Two numeric identifiers are compared as the numbers \<^verbatim>\<open>+a\<close> and
  \<^verbatim>\<open>+b\<close>, so two strings of digits as the doubles they denote; a numeric identifier
  comes before one that is not; two strings that are not numeric are compared by code
  units.
\<close>

fun compareIdentifiers :: "ident \<Rightarrow> ident \<Rightarrow> int" where
  "compareIdentifiers (Num a) (Num b) = compareNumbers a b"
| "compareIdentifiers (Num a) (Str b) =
     (if isNumeric b then compareNumbers a (toDouble (toNumber b)) else - 1)"
| "compareIdentifiers (Str a) (Num b) =
     (if isNumeric a then compareNumbers (toDouble (toNumber a)) b else 1)"
| "compareIdentifiers (Str a) (Str b) =
     (if isNumeric a \<and> isNumeric b
      then compareNumbers (toDouble (toNumber a)) (toDouble (toNumber b))
      else if a = b then 0
      else if isNumeric a then - 1
      else if isNumeric b then 1
      else if a < b then - 1 else 1)"

definition compareMain :: "SemVer \<Rightarrow> SemVer \<Rightarrow> int" where
  "compareMain a b =
     (if compareNumbers (major a) (major b) \<noteq> 0 then compareNumbers (major a) (major b)
      else if compareNumbers (minor a) (minor b) \<noteq> 0 then compareNumbers (minor a) (minor b)
      else compareNumbers (patch a) (patch b))"

text \<open>
  The \<^verbatim>\<open>do ... while (++i)\<close> loop of \<^verbatim>\<open>comparePre\<close>: it goes on to the next
  position while \<^verbatim>\<open>a === b\<close>, and at the first position where the two identifiers
  differ it returns \<^verbatim>\<open>compareIdentifiers(a, b)\<close>, whatever that is. For two different
  strings of digits that denote the same double this is 0, and the identifiers after
  them are not looked at.
\<close>

fun comparePreLoop :: "ident list \<Rightarrow> ident list \<Rightarrow> int" where
  "comparePreLoop [] [] = 0"
| "comparePreLoop (a # as) [] = 1"
| "comparePreLoop [] (b # bs) = - 1"
| "comparePreLoop (a # as) (b # bs) =
     (if a = b then comparePreLoop as bs else compareIdentifiers a b)"

definition comparePre :: "SemVer \<Rightarrow> SemVer \<Rightarrow> int" where
  "comparePre a b =
     (if prerelease a \<noteq> [] \<and> prerelease b = [] then - 1
      else if prerelease a = [] \<and> prerelease b \<noteq> [] then 1
      else if prerelease a = [] \<and> prerelease b = [] then 0
      else comparePreLoop (prerelease a) (prerelease b))"

text \<open>
  \<^verbatim>\<open>SemVer.compare\<close>. Its shortcut for equal version strings returns what the two
  comparisons return on equal fields, and is left out.
\<close>

definition compare :: "SemVer \<Rightarrow> SemVer \<Rightarrow> int" where
  "compare a b = (if compareMain a b \<noteq> 0 then compareMain a b else comparePre a b)"

text \<open>\<^verbatim>\<open>gt(a, b)\<close> builds both versions and throws a TypeError (\<open>None\<close>) on an invalid one.\<close>

definition gt :: "string \<Rightarrow> string \<Rightarrow> bool option" where
  "gt a b =
     (case (parse a, parse b) of
        (Some x, Some y) \<Rightarrow> Some (compare x y > 0)
      | _ \<Rightarrow> None)"

text \<open>\<^verbatim>\<open>SemVer.format\<close>, the text a template string prints for a version object.\<close>

function showNat :: "nat \<Rightarrow> string" where
  "showNat n =
     (if n < 10 then [char_of (48 + n)] else showNat (n div 10) @ [char_of (48 + n mod 10)])"
  by pat_completeness auto
termination
  by (relation "measure id") auto

declare showNat.simps [simp del]

fun showIdent :: "ident \<Rightarrow> string" where
  "showIdent (Num n) = showNat n"
| "showIdent (Str s) = s"

fun join :: "string list \<Rightarrow> string" where
  "join [] = []"
| "join [x] = x"
| "join (x # y # ys) = x @ ''.'' @ join (y # ys)"

definition format :: "SemVer \<Rightarrow> string" where
  "format v =
     showNat (major v) @ ''.'' @ showNat (minor v) @ ''.'' @ showNat (patch v) @
     (if prerelease v \<noteq> [] then ''-'' @ join (map showIdent (prerelease v)) else [])"

subsection \<open>Comparators and ranges\<close>

datatype operator = Eq | Lt | Le | Gt | Ge

datatype comparator = ANY | Comparator operator SemVer

fun cmp :: "SemVer \<Rightarrow> operator \<Rightarrow> SemVer \<Rightarrow> bool" where
  "cmp a Eq b \<longleftrightarrow> compare a b = 0"
| "cmp a Lt b \<longleftrightarrow> compare a b < 0"
| "cmp a Le b \<longleftrightarrow> compare a b \<le> 0"
| "cmp a Gt b \<longleftrightarrow> compare a b > 0"
| "cmp a Ge b \<longleftrightarrow> compare a b \<ge> 0"

text \<open>\<^verbatim>\<open>Comparator.test\<close>\<close>

fun test :: "comparator \<Rightarrow> SemVer \<Rightarrow> bool" where
  "test ANY version \<longleftrightarrow> True"
| "test (Comparator operator semver) version \<longleftrightarrow> cmp version operator semver"

text \<open>
  The inner loop of \<^verbatim>\<open>testSet\<close>: a comparator admits a prerelease version when its own
  version has a prerelease tag on the same \<open>major.minor.patch\<close>.
\<close>

fun allowsPrereleaseOf :: "SemVer \<Rightarrow> comparator \<Rightarrow> bool" where
  "allowsPrereleaseOf version ANY \<longleftrightarrow> False"
| "allowsPrereleaseOf version (Comparator operator allowed) \<longleftrightarrow>
     prerelease allowed \<noteq> [] \<and> major allowed = major version \<and>
     minor allowed = minor version \<and> patch allowed = patch version"

definition testSet :: "comparator list \<Rightarrow> SemVer \<Rightarrow> bool \<Rightarrow> bool" where
  "testSet comparators version includePrerelease \<longleftrightarrow>
     (if \<not> list_all (\<lambda>c. test c version) comparators then False
      else if prerelease version \<noteq> [] \<and> \<not> includePrerelease
           then list_ex (allowsPrereleaseOf version) comparators
      else True)"

text \<open>
  A range object is its \<^verbatim>\<open>set\<close>: the alternatives of \<^verbatim>\<open>||\<close>, each a list of
  comparators. \<^verbatim>\<open>Range.test\<close> on a version string that parses to \<open>version\<close>:
\<close>

type_synonym Range = "comparator list list"

definition testRange :: "Range \<Rightarrow> bool \<Rightarrow> SemVer \<Rightarrow> bool" where
  "testRange rangeObj includePrerelease version \<longleftrightarrow>
     list_ex (\<lambda>comparators. testSet comparators version includePrerelease) rangeObj"

text \<open>What the library computes on input outside the part written out here.\<close>

record semver_rest =
  otherRange :: "string \<Rightarrow> bool \<Rightarrow> Range option"
  otherCoerce :: "string \<Rightarrow> SemVer option"

definition mkVersion :: "nat \<Rightarrow> nat \<Rightarrow> nat \<Rightarrow> ident list \<Rightarrow> SemVer" where
  "mkVersion M m p pr = \<lparr>major = M, minor = m, patch = p, prerelease = pr, build = []\<rparr>"

text \<open>
  One component of a partial version, \<^verbatim>\<open>0|[1-9]\d*|x|X|\*\<close>: \<open>Some (Some n)\<close> for a
  number, \<open>Some None\<close> for a wildcard (\<^verbatim>\<open>isX\<close>), \<open>None\<close> when it is neither.
\<close>

definition xIdentifier :: "string \<Rightarrow> nat option option" where
  "xIdentifier s =
     (if s = ''x'' \<or> s = ''X'' \<or> s = ''*'' then Some None
      else if isNumericIdentifier s then Some (Some (toNumber s))
      else None)"

text \<open>
  \<^verbatim>\<open>replaceCaret\<close> on \<^verbatim>\<open>^\<close> followed by \<open>s\<close>, for \<open>s\<close> beginning with a digit:
  the lower and the upper comparator, or \<open>None\<close> when \<open>s\<close> is not a partial version
  (the comparator then stays as it is).
  \<open>z\<close> is the prerelease tag \<^verbatim>\<open>-0\<close> that \<^verbatim>\<open>includePrerelease\<close> adds.
\<close>

definition replaceCaret :: "bool \<Rightarrow> string \<Rightarrow> (SemVer \<times> SemVer) option" where
  "replaceCaret includePrerelease s =
     (let z = (if includePrerelease then [Num 0] else []);
          zero = [Num 0];
          tagged = (prereleasePart s \<noteq> None \<or> buildPart s \<noteq> None)
      in case map xIdentifier (split CHR ''.'' (mainPart s)) of
           [Some (Some M)] \<Rightarrow>
             if tagged then None
             else Some (mkVersion M 0 0 z, mkVersion (M + 1) 0 0 zero)
         | [Some (Some M), Some m] \<Rightarrow>
             if tagged then None
             else (case m of
                     None \<Rightarrow> Some (mkVersion M 0 0 z, mkVersion (M + 1) 0 0 zero)
                   | Some m \<Rightarrow>
                       if M = 0 then Some (mkVersion M m 0 z, mkVersion M (m + 1) 0 zero)
                       else Some (mkVersion M m 0 z, mkVersion (M + 1) 0 0 zero))
         | [Some (Some M), Some m, Some p] \<Rightarrow>
             if \<not> validTags s then None
             else (case (m, p) of
                     (None, _) \<Rightarrow> Some (mkVersion M 0 0 z, mkVersion (M + 1) 0 0 zero)
                   | (Some m, None) \<Rightarrow>
                       if M = 0 then Some (mkVersion M m 0 z, mkVersion M (m + 1) 0 zero)
                       else Some (mkVersion M m 0 z, mkVersion (M + 1) 0 0 zero)
                   | (Some m, Some p) \<Rightarrow>
                       (let pr = fst (tagsOf s) in
                        if pr \<noteq> [] then
                          if M = 0 then
                            if m = 0 then Some (mkVersion M m p pr, mkVersion M m (p + 1) zero)
                            else Some (mkVersion M m p pr, mkVersion M (m + 1) 0 zero)
                          else Some (mkVersion M m p pr, mkVersion (M + 1) 0 0 zero)
                        else
                          if M = 0 then
                            if m = 0 then Some (mkVersion M m p z, mkVersion M m (p + 1) zero)
                            else Some (mkVersion M m p z, mkVersion M (m + 1) 0 zero)
                          else Some (mkVersion M m p [], mkVersion (M + 1) 0 0 zero)))
         | _ \<Rightarrow> None)"

text \<open>
  The comparator constructor builds a \<^verbatim>\<open>SemVer\<close> from the text that \<^verbatim>\<open>replaceCaret\<close>
  printed and throws when a number exceeds \<open>MAX_SAFE_INTEGER\<close> or the text is longer
  than \<open>MAX_LENGTH\<close>. (Only a prerelease tag can make the text that long; the tag is
  printed as it stands in \<open>s\<close>.)
\<close>

definition constructible :: "string \<Rightarrow> SemVer \<Rightarrow> bool" where
  "constructible s v \<longleftrightarrow>
     major v \<le> MAX_SAFE_INTEGER \<and> minor v \<le> MAX_SAFE_INTEGER \<and> patch v \<le> MAX_SAFE_INTEGER \<and>
     (prerelease v = [] \<or> prerelease v = [Num 0] \<or>
      length (takeWhile (\<lambda>c. c \<noteq> CHR ''+'') s) \<le> MAX_LENGTH)"

text \<open>
  \<^verbatim>\<open>replaceGTE0\<close>: the comparator \<^verbatim>\<open>>=0.0.0\<close> (\<^verbatim>\<open>>=0.0.0-0\<close> with
  \<^verbatim>\<open>includePrerelease\<close>) becomes the empty comparator, which matches anything.
\<close>

definition replaceGTE0 :: "bool \<Rightarrow> comparator \<Rightarrow> comparator" where
  "replaceGTE0 includePrerelease c =
     (if c = Comparator Ge (mkVersion 0 0 0 (if includePrerelease then [Num 0] else []))
      then ANY else c)"

text \<open>
  A primitive comparator is an operator \<^verbatim>\<open>((?:<|>)?=?)\<close> followed by a version. No
  step of the range parser rewrites it, and the comparator constructor builds the
  version from the text after the operator. It is written out for a version that
  begins with a digit; \<open>None\<close> otherwise, and when no version can be built.
\<close>

definition operatorOf :: "string \<Rightarrow> operator \<times> string" where
  "operatorOf t =
     (case t of
        c # r \<Rightarrow>
          if c = CHR ''<'' then
            (case r of d # r' \<Rightarrow> if d = CHR ''='' then (Le, r') else (Lt, r) | [] \<Rightarrow> (Lt, r))
          else if c = CHR ''>'' then
            (case r of d # r' \<Rightarrow> if d = CHR ''='' then (Ge, r') else (Gt, r) | [] \<Rightarrow> (Gt, r))
          else if c = CHR ''='' then (Eq, r)
          else (Eq, t)
      | [] \<Rightarrow> (Eq, t))"

definition primitiveComparator :: "string \<Rightarrow> comparator option" where
  "primitiveComparator t =
     (case operatorOf t of
        (operator, v) \<Rightarrow>
          if v \<noteq> [] \<and> isDigit (hd v) then map_option (Comparator operator) (parse v) else None)"

text \<open>
  A comparator set \<^verbatim>\<open>^\<close>\<open>s\<close> of several comparators, each separated from the next
  by one space: the first, with the caret, begins with a digit and is rewritten by
  \<^verbatim>\<open>replaceCaret\<close>; the others are primitive comparators. The comparators of the set
  are those of its parts, in order, each passed through \<^verbatim>\<open>replaceGTE0\<close>. (The parser
  then drops a comparator that occurs twice, drops the empty comparator beside others,
  and keeps \<^verbatim>\<open><0.0.0-0\<close> alone if it occurs; none of this changes which versions
  the set admits.) \<open>None\<close> when the text is not of this shape.
\<close>

definition comparatorSet :: "bool \<Rightarrow> string \<Rightarrow> comparator list option" where
  "comparatorSet includePrerelease s =
     (case split CHR '' '' s of
        first # rest \<Rightarrow>
          if rest \<noteq> [] \<and> first \<noteq> [] \<and> isDigit (hd first) \<and>
             \<not> list_ex (\<lambda>c. isWhiteSpace c \<or> c = CHR ''|'') (concat (first # rest))
          then
            (case (replaceCaret includePrerelease first, those (map primitiveComparator rest)) of
               (Some (lower, upper), Some others) \<Rightarrow>
                 if constructible first lower \<and> constructible first upper
                 then Some (map (replaceGTE0 includePrerelease)
                              (Comparator Ge lower # Comparator Lt upper # others))
                 else None
             | _ \<Rightarrow> None)
          else None
      | [] \<Rightarrow> None)"

text \<open>
  \<^verbatim>\<open>new Range(range, {includePrerelease})\<close>, \<open>None\<close> when it throws. Written out for
  three shapes. The range \<^verbatim>\<open>>=0\<close> is rewritten to \<^verbatim>\<open>>=0.0.0\<close> (\<^verbatim>\<open>>=0.0.0-0\<close> with
  \<^verbatim>\<open>includePrerelease\<close>) and then to the empty comparator. A caret followed by nothing,
  or by a text that begins with a digit and has no white space and no \<^verbatim>\<open>|\<close>, is a
  single comparator, which \<^verbatim>\<open>replaceCaret\<close> rewrites into two; the constructor throws
  when one of them cannot be built. A caret followed by a comparator set as described
  above gives that set. Every other range is left to \<open>lib\<close>, also a single comparator
  that \<^verbatim>\<open>replaceCaret\<close> does not rewrite.
\<close>

definition newRange :: "semver_rest \<Rightarrow> string \<Rightarrow> bool \<Rightarrow> Range option" where
  "newRange lib r includePrerelease =
     (if r = ''>=0'' then Some [[ANY]]
      else
        (case r of
           c # s \<Rightarrow>
             if c = CHR ''^'' \<and> (s = [] \<or> isDigit (hd s)) \<and>
                \<not> list_ex (\<lambda>c. isWhiteSpace c \<or> c = CHR ''|'') s
             then
               (case replaceCaret includePrerelease s of
                  None \<Rightarrow> otherRange lib r includePrerelease
                | Some (lower, upper) \<Rightarrow>
                    if constructible s lower \<and> constructible s upper
                    then Some [[replaceGTE0 includePrerelease (Comparator Ge lower),
                                replaceGTE0 includePrerelease (Comparator Lt upper)]]
                    else None)
             else if c = CHR ''^'' then
               (case comparatorSet includePrerelease s of
                  Some comparators \<Rightarrow> Some [comparators]
                | None \<Rightarrow> otherRange lib r includePrerelease)
             else otherRange lib r includePrerelease
         | [] \<Rightarrow> otherRange lib r includePrerelease))"

text \<open>
  \<^verbatim>\<open>maxSatisfying(versions, range, {includePrerelease})\<close>. The loop keeps the text
  \<open>max\<close> (here \<open>maxV\<close>) and its version \<open>maxSV\<close>; a version that does not parse fails
  \<^verbatim>\<open>rangeObj.test\<close>.
\<close>

fun maxSatisfyingLoop ::
  "Range \<Rightarrow> bool \<Rightarrow> string list \<Rightarrow> (string \<times> SemVer) option \<Rightarrow> (string \<times> SemVer) option" where
  "maxSatisfyingLoop rangeObj includePrerelease [] acc = acc"
| "maxSatisfyingLoop rangeObj includePrerelease (v # versions) acc =
     maxSatisfyingLoop rangeObj includePrerelease versions
       (case parse v of
          None \<Rightarrow> acc
        | Some sv \<Rightarrow>
            if testRange rangeObj includePrerelease sv then
              (case acc of
                 None \<Rightarrow> Some (v, sv)
               | Some (maxV, maxSV) \<Rightarrow> if compare maxSV sv = - 1 then Some (v, sv) else acc)
            else acc)"

definition maxSatisfying :: "semver_rest \<Rightarrow> string list \<Rightarrow> string \<Rightarrow> bool \<Rightarrow> string option" where
  "maxSatisfying lib versions r includePrerelease =
     (case newRange lib r includePrerelease of
        None \<Rightarrow> None
      | Some rangeObj \<Rightarrow>
          map_option fst (maxSatisfyingLoop rangeObj includePrerelease versions None))"

text \<open>
  \<^verbatim>\<open>coerce(version)\<close> takes the first \<open>major.minor.patch\<close> it finds in the text: on a
  version string, the release the version belongs to. Other texts are left to \<open>lib\<close>.
\<close>

definition coerce :: "semver_rest \<Rightarrow> string \<Rightarrow> SemVer option" where
  "coerce lib version =
     (case parse version of
        Some v \<Rightarrow> Some (mkVersion (major v) (minor v) (patch v) [])
      | None \<Rightarrow> otherCoerce lib version)"

section \<open>The update resolution: getPackageLatestVersion\<close>

text \<open>
  The function awaits the published versions and then computes without further effects.
  The model is that computation: \<open>packageVersions\<close> is the value the awaited promise
  resolved to, \<open>hasMajorUpdateProtection\<close> the setting read by the call of that name,
  \<open>version\<close> the declared range \<^verbatim>\<open>packageInfo.version\<close>. The result is the string or
  null the function returns, or \<open>Throw\<close> where a library call throws.
\<close>

datatype 'a outcome = Return 'a | Throw

text \<open>A template string prints a version object by \<^verbatim>\<open>format\<close> and null as \<^verbatim>\<open>null\<close>.\<close>

definition template :: "SemVer option \<Rightarrow> string" where
  "template v = (case v of Some sv \<Rightarrow> format sv | None \<Rightarrow> ''null'')"

definition getPackageLatestVersion ::
  "semver_rest \<Rightarrow> bool \<Rightarrow> string list \<Rightarrow> string \<Rightarrow> string option outcome" where
  "getPackageLatestVersion lib hasMajorUpdateProtection packageVersions version =
     (let versionClean = versionClear version;
          isPrerelease = (prerelease_of versionClean \<noteq> None);
          versionLatest = maxSatisfying lib packageVersions ''>=0'' isPrerelease
      in if \<not> hasMajorUpdateProtection then Return versionLatest
         else
           (case (if isPrerelease then
                    (case maxSatisfying lib packageVersions
                            (''^'' @ template (coerce lib versionClean)) False of
                       None \<Rightarrow> Return None
                     | Some versionNonPrerelease \<Rightarrow>
                         if versionNonPrerelease = [] then Return None
                         else (case gt versionNonPrerelease versionClean of
                                 None \<Rightarrow> Throw
                               | Some isGreater \<Rightarrow>
                                   Return (if isGreater then Some versionNonPrerelease else None)))
                  else Return None) of
              Throw \<Rightarrow> Throw
            | Return (Some versionNonPrerelease) \<Rightarrow> Return (Some versionNonPrerelease)
            | Return None \<Rightarrow>
                (let versionSatisfying =
                       maxSatisfying lib packageVersions (''^'' @ versionClean) isPrerelease
                 in if versionSatisfying = None \<or> versionSatisfying = Some [] \<or>
                       Some versionClean = versionSatisfying
                    then Return versionLatest
                    else Return versionSatisfying)))"

section \<open>Notions used to state the properties of the resolution\<close>

text \<open>
  The library's comparison of versions given as text, and a maximum of a list of
  published versions under it: an element that no other element exceeds. (Versions
  that differ only in build metadata or in a leading \<^verbatim>\<open>v\<close> compare as equal, so a
  maximum need not be unique.)
\<close>

definition versionLE :: "string \<Rightarrow> string \<Rightarrow> bool" where
  "versionLE a b \<longleftrightarrow>
     (case (parse a, parse b) of (Some x, Some y) \<Rightarrow> compare x y \<le> 0 | _ \<Rightarrow> False)"

definition isMaximumOf :: "string list \<Rightarrow> string \<Rightarrow> bool" where
  "isMaximumOf candidates s \<longleftrightarrow> s \<in> set candidates \<and> list_all (\<lambda>u. versionLE u s) candidates"

text \<open>
  The candidates of the range "any version at or above 0": every published text that
  is a version, those with a prerelease tag only if \<open>includePrerelease\<close>.
\<close>

definition anyVersion :: "bool \<Rightarrow> string list \<Rightarrow> string list" where
  "anyVersion includePrerelease versions =
     filter (\<lambda>v. case parse v of
                   Some sv \<Rightarrow> includePrerelease \<or> prerelease sv = []
                 | None \<Rightarrow> False) versions"

text \<open>\<^verbatim>\<open>Range.test\<close> on a version given as text.\<close>

definition satisfies :: "Range \<Rightarrow> bool \<Rightarrow> string \<Rightarrow> bool" where
  "satisfies rangeObj includePrerelease v \<longleftrightarrow>
     (case parse v of Some sv \<Rightarrow> testRange rangeObj includePrerelease sv | None \<Rightarrow> False)"

text \<open>
  Precedence as the specification of semantic versioning defines it, written as a
  lexicographic key: major, minor and patch as numbers; a version with a prerelease tag
  before the same version without one; tags identifier by identifier, where identifiers
  of digits are compared as the natural numbers they denote and come before the others,
  the others are compared by code units, and a tag comes before its extensions.
\<close>

fun identKey :: "ident \<Rightarrow> nat \<times> nat \<times> string" where
  "identKey (Num n) = (0, n, [])"
| "identKey (Str s) = (if isNumeric s then (0, toNumber s, []) else (1, 0, s))"

definition precedenceKey ::
  "SemVer \<Rightarrow> nat \<times> nat \<times> nat \<times> nat \<times> (nat \<times> nat \<times> string) list" where
  "precedenceKey v =
     (major v, minor v, patch v, if prerelease v = [] then 1 else 0,
      map identKey (prerelease v))"

definition precedenceLE :: "string \<Rightarrow> string \<Rightarrow> bool" where
  "precedenceLE a b \<longleftrightarrow>
     (case (parse a, parse b) of
        (Some x, Some y) \<Rightarrow> precedenceKey x \<le> precedenceKey y
      | _ \<Rightarrow> False)"

text \<open>
  The versions whose prerelease identifiers of digits all denote numbers below
  \<open>MAX_SAFE_INTEGER\<close>: the version object holds each of them as a number.
\<close>

definition plainIdent :: "ident \<Rightarrow> bool" where
  "plainIdent i = (case i of Num n \<Rightarrow> True | Str s \<Rightarrow> \<not> isNumeric s)"

definition smallNumerals :: "string \<Rightarrow> bool" where
  "smallNumerals v \<longleftrightarrow>
     (case parse v of Some sv \<Rightarrow> list_all plainIdent (prerelease sv) | None \<Rightarrow> False)"

text \<open>
  The key by which \<open>compareIdentifiers\<close> orders identifiers (lemma
  \<open>compareIdentifiers_key\<close>): as \<open>identKey\<close>, with the double in place of the number
  for a string of digits.
\<close>

fun comparisonKey :: "ident \<Rightarrow> nat \<times> nat \<times> string" where
  "comparisonKey (Num n) = (0, n, [])"
| "comparisonKey (Str s) = (if isNumeric s then (0, toDouble (toNumber s), []) else (1, 0, s))"

text \<open>What the constructor of a version guarantees of the identifiers it stores.\<close>

definition storedIdent :: "ident \<Rightarrow> bool" where
  "storedIdent i =
     (case i of
        Num n \<Rightarrow> n < MAX_SAFE_INTEGER
      | Str s \<Rightarrow> \<not> isNumeric s \<or> MAX_SAFE_INTEGER \<le> toDouble (toNumber s))"

definition wellFormed :: "SemVer \<Rightarrow> bool" where
  "wellFormed v \<longleftrightarrow> list_all storedIdent (prerelease v)"

text \<open>The exclusive upper end of the caret range of \<open>M.m.p\<close>.\<close>

definition caretUpper :: "nat \<Rightarrow> nat \<Rightarrow> nat \<Rightarrow> SemVer" where
  "caretUpper M m p =
     (if M = 0 then (if m = 0 then mkVersion M m (p + 1) [Num 0] else mkVersion M (m + 1) 0 [Num 0])
      else mkVersion (M + 1) 0 0 [Num 0])"

text \<open>
  The release counterpart of a version, and the published versions of its caret range
  that carry no prerelease tag: at or above the release, below the upper end.
\<close>

definition releaseOf :: "SemVer \<Rightarrow> SemVer" where
  "releaseOf v = mkVersion (major v) (minor v) (patch v) []"

definition inReleaseCaret :: "SemVer \<Rightarrow> string \<Rightarrow> bool" where
  "inReleaseCaret baseline v \<longleftrightarrow>
     (case parse v of
        Some x \<Rightarrow>
          prerelease x = [] \<and> compare x (releaseOf baseline) \<ge> 0 \<and>
          compare x (caretUpper (major baseline) (minor baseline) (patch baseline)) < 0
      | None \<Rightarrow> False)"

text \<open>
  A range none of whose comparators has a prerelease tag of its own: the only tag is the
  \<^verbatim>\<open>-0\<close> that the parser puts on an exclusive upper end.
\<close>

fun untagged :: "comparator \<Rightarrow> bool" where
  "untagged ANY \<longleftrightarrow> True"
| "untagged (Comparator operator semver) \<longleftrightarrow>
     prerelease semver = [] \<or> (operator = Lt \<and> prerelease semver = [Num 0])"

definition untaggedRange :: "Range \<Rightarrow> bool" where
  "untaggedRange rangeObj \<longleftrightarrow> list_all (list_all untagged) rangeObj"

text \<open>
  A stand-in for the rest of the library, for closed examples; none of them reaches it.
\<close>

definition unreached :: semver_rest where
  "unreached = \<lparr>otherRange = (\<lambda>r includePrerelease. None), otherCoerce = (\<lambda>version. None)\<rparr>"

section \<open>The fetch layer\<close>

text \<open>
  Time is \<^verbatim>\<open>Date.now()\<close>, in milliseconds. A promise is named by its position in the
  list of promises created so far; it is settled once, and a later \<^verbatim>\<open>resolve\<close> or
  \<^verbatim>\<open>reject\<close> changes nothing.
\<close>

datatype 'a promise = Pending | Fulfilled 'a | Rejected

definition settle :: "nat \<Rightarrow> 'a promise \<Rightarrow> 'a promise list \<Rightarrow> 'a promise list" where
  "settle p outcome ps =
     (if p < length ps \<and> ps ! p = Pending then ps[p := outcome] else ps)"

text \<open>
  Modelled from the spec: the class \<^verbatim>\<open>Cache\<close> of \<^verbatim>\<open>./Cache\<close>, which is not among the
  sources. The spec: a cache entry is \<^verbatim>\<open>{ value: Future<T>, createdAt: timestamp }\<close>
  and is valid iff \<^verbatim>\<open>now - createdAt < ttl\<close>.
\<close>

record Cache =
  entryValue :: nat
  createdAt :: int

definition isValid :: "Cache \<Rightarrow> int \<Rightarrow> int \<Rightarrow> bool" where
  "isValid entry now ttl \<longleftrightarrow> now - createdAt entry < ttl"

text \<open>A child process started by \<^verbatim>\<open>exec\<close>, with the promise its callback settles.\<close>

datatype command = NpmView string nat | NpmLs string nat

text \<open>
  The module's state: the two caches, the promises of either kind, and the commands
  executed so far. \<^verbatim>\<open>CACHE_PACKAGES\<close> is an object used as a dictionary; it is a map
  here. \<open>'j\<close> is what \<^verbatim>\<open>JSON.parse\<close> returns, \<open>'i\<close> the record of installed packages.
\<close>

record ('j, 'i) npm =
  CACHE_PACKAGES :: "string \<rightharpoonup> Cache"
  CACHE_PACKAGES_INSTALLED :: "Cache option"
  viewPromises :: "'j promise list"
  lsPromises :: "'i option promise list"
  executed :: "command list"

definition initial :: "('j, 'i) npm" where
  "initial = \<lparr>CACHE_PACKAGES = Map.empty, CACHE_PACKAGES_INSTALLED = None,
              viewPromises = [], lsPromises = [], executed = []\<rparr>"

text \<open>
  \<^verbatim>\<open>getPackageVersions(name)\<close> at time \<open>now\<close>, with \<open>lifetime\<close> the value of
  \<^verbatim>\<open>getCacheLifetime()\<close>. It returns the cached promise, or starts \<^verbatim>\<open>npm view\<close>,
  caches the new promise and returns it. (An \<^verbatim>\<open>async\<close> function wraps what it returns
  in a promise of its own that settles as the returned one does; the model names the
  returned one.)
\<close>

definition startView :: "int \<Rightarrow> string \<Rightarrow> ('j, 'i) npm \<Rightarrow> nat \<times> ('j, 'i) npm" where
  "startView now name s =
     (let execPromise = length (viewPromises s)
      in (execPromise,
          s\<lparr>viewPromises := viewPromises s @ [Pending],
            executed := executed s @ [NpmView name execPromise],
            CACHE_PACKAGES := (CACHE_PACKAGES s)(name \<mapsto> \<lparr>entryValue = execPromise, createdAt = now\<rparr>)\<rparr>))"

definition getPackageVersions ::
  "int \<Rightarrow> int \<Rightarrow> string \<Rightarrow> ('j, 'i) npm \<Rightarrow> nat \<times> ('j, 'i) npm" where
  "getPackageVersions now lifetime name s =
     (case CACHE_PACKAGES s name of
        Some entry \<Rightarrow> if isValid entry now lifetime then (entryValue entry, s) else startView now name s
      | None \<Rightarrow> startView now name s)"

text \<open>
  The callback of \<^verbatim>\<open>npm view\<close>, called with \<open>error\<close> (true when \<^verbatim>\<open>exec\<close> reports an
  error, which includes a non-zero exit) and \<open>stdout\<close>. \<open>JSON_parse\<close> is \<open>None\<close> where
  \<^verbatim>\<open>JSON.parse\<close> throws.
\<close>

definition npmViewCallback ::
  "(string \<Rightarrow> 'j option) \<Rightarrow> string \<Rightarrow> nat \<Rightarrow> bool \<Rightarrow> string \<Rightarrow> ('j, 'i) npm \<Rightarrow> ('j, 'i) npm" where
  "npmViewCallback JSON_parse name execPromise error stdout s =
     (case (if \<not> error then JSON_parse stdout else None) of
        Some parsed \<Rightarrow> s\<lparr>viewPromises := settle execPromise (Fulfilled parsed) (viewPromises s)\<rparr>
      | None \<Rightarrow>
          (let deleted = s\<lparr>CACHE_PACKAGES := (CACHE_PACKAGES s)(name := None)\<rparr>
           in deleted\<lparr>viewPromises := settle execPromise Rejected (viewPromises deleted)\<rparr>))"

text \<open>
  \<^verbatim>\<open>getPackagesInstalled(document)\<close>; \<open>cwd\<close> is the directory of the document. The
  lifetime is the constant \<^verbatim>\<open>60 * 1000\<close>.
\<close>

definition startLs :: "int \<Rightarrow> string \<Rightarrow> ('j, 'i) npm \<Rightarrow> nat \<times> ('j, 'i) npm" where
  "startLs now cwd s =
     (let execPromise = length (lsPromises s)
      in (execPromise,
          s\<lparr>lsPromises := lsPromises s @ [Pending],
            executed := executed s @ [NpmLs cwd execPromise],
            CACHE_PACKAGES_INSTALLED := Some \<lparr>entryValue = execPromise, createdAt = now\<rparr>\<rparr>))"

definition getPackagesInstalled :: "int \<Rightarrow> string \<Rightarrow> ('j, 'i) npm \<Rightarrow> nat \<times> ('j, 'i) npm" where
  "getPackagesInstalled now cwd s =
     (case CACHE_PACKAGES_INSTALLED s of
        Some entry \<Rightarrow> if isValid entry now (60 * 1000) then (entryValue entry, s) else startLs now cwd s
      | None \<Rightarrow> startLs now cwd s)"

text \<open>
  The callback of \<^verbatim>\<open>npm ls\<close>. It ignores the error and has no \<^verbatim>\<open>reject\<close>.
  \<open>dependenciesOf\<close> is the body of its \<^verbatim>\<open>try\<close>: the installed packages read from
  \<^verbatim>\<open>execResult.dependencies\<close>, \<open>None\<close> when that field is missing or reading it throws.
\<close>

definition npmLsCallback ::
  "(string \<Rightarrow> 'j option) \<Rightarrow> ('j \<Rightarrow> 'i option) \<Rightarrow> nat \<Rightarrow> string \<Rightarrow> ('j, 'i) npm \<Rightarrow> ('j, 'i) npm" where
  "npmLsCallback JSON_parse dependenciesOf execPromise stdout s =
     (let result =
            (if stdout \<noteq> [] then
               (case JSON_parse stdout of
                  Some execResult \<Rightarrow> dependenciesOf execResult
                | None \<Rightarrow> None)
             else None)
      in s\<lparr>lsPromises := settle execPromise (Fulfilled result) (lsPromises s)\<rparr>)"

text \<open>
  What happens to the module over time: calls of the two functions and returns of the
  commands they started, each return running the callback of its command.
\<close>

datatype fetchEvent =
    GetVersions int int string
  | ViewReturns string nat bool string
  | GetInstalled int string
  | LsReturns nat string

fun fetchStep ::
  "(string \<Rightarrow> 'j option) \<Rightarrow> ('j \<Rightarrow> 'i option) \<Rightarrow> fetchEvent \<Rightarrow> ('j, 'i) npm \<Rightarrow> ('j, 'i) npm" where
  "fetchStep JSON_parse dependenciesOf (GetVersions now lifetime name) s =
     snd (getPackageVersions now lifetime name s)"
| "fetchStep JSON_parse dependenciesOf (ViewReturns name execPromise error stdout) s =
     npmViewCallback JSON_parse name execPromise error stdout s"
| "fetchStep JSON_parse dependenciesOf (GetInstalled now cwd) s =
     snd (getPackagesInstalled now cwd s)"
| "fetchStep JSON_parse dependenciesOf (LsReturns execPromise stdout) s =
     npmLsCallback JSON_parse dependenciesOf execPromise stdout s"

definition fetchRun ::
  "(string \<Rightarrow> 'j option) \<Rightarrow> ('j \<Rightarrow> 'i option) \<Rightarrow> fetchEvent list \<Rightarrow> ('j, 'i) npm \<Rightarrow> ('j, 'i) npm" where
  "fetchRun JSON_parse dependenciesOf events s =
     foldl (\<lambda>s e. fetchStep JSON_parse dependenciesOf e s) s events"

text \<open>
  The events that leave the cache entry \<open>entry\<close> of \<open>name\<close> alone: everything but a
  call for \<open>name\<close> at a time when the entry is no longer valid, and the failure of a
  query for \<open>name\<close>.
\<close>

fun keepsEntry :: "(string \<Rightarrow> 'j option) \<Rightarrow> string \<Rightarrow> Cache \<Rightarrow> fetchEvent \<Rightarrow> bool" where
  "keepsEntry JSON_parse name entry (GetVersions now lifetime n) \<longleftrightarrow>
     n \<noteq> name \<or> isValid entry now lifetime"
| "keepsEntry JSON_parse name entry (ViewReturns n execPromise error stdout) \<longleftrightarrow>
     n \<noteq> name \<or> (\<not> error \<and> JSON_parse stdout \<noteq> None)"
| "keepsEntry JSON_parse name entry (GetInstalled now cwd) \<longleftrightarrow> True"
| "keepsEntry JSON_parse name entry (LsReturns execPromise stdout) \<longleftrightarrow> True"

text \<open>The commands \<^verbatim>\<open>npm view\<close> for \<open>name\<close> among those executed.\<close>

definition viewsOf :: "string \<Rightarrow> command list \<Rightarrow> command list" where
  "viewsOf name commands =
     filter (\<lambda>c. case c of NpmView n execPromise \<Rightarrow> n = name | NpmLs cwd execPromise \<Rightarrow> False) commands"

section \<open>Utils.ts: lazyCallback\<close>

text \<open>
  The closure state of \<^verbatim>\<open>lazyCallback(callback, wait, delay)\<close>: the two variables
  \<^verbatim>\<open>isRunning\<close> and \<^verbatim>\<open>argsNext\<close>, the timers that are set (each \<^verbatim>\<open>wait\<close> timer with
  the arguments it will pass on), and the invocations of \<^verbatim>\<open>callback\<close> that have begun and
  not settled. \<open>invoked\<close> records every invocation, in order. \<open>'a\<close> is the argument
  list of one call.
\<close>

record 'a lazy =
  isRunning :: bool
  argsNext :: "'a option"
  waitTimers :: "'a list"
  inFlight :: "'a list"
  delayTimers :: nat
  invoked :: "'a list"

definition idle :: "'a lazy" where
  "idle = \<lparr>isRunning = False, argsNext = None, waitTimers = [], inFlight = [],
           delayTimers = 0, invoked = []\<rparr>"

text \<open>
  The callback is given by the calls of \<^verbatim>\<open>activate\<close> that it makes itself before it
  first suspends: \<open>callback args\<close> lists their arguments. Such a call runs inside the
  invocation; \<open>activateInner\<close> is \<^verbatim>\<open>activate\<close> for it, with the callback it would start
  taken to make no such calls in turn. (It never starts one: \<^verbatim>\<open>isRunning\<close> is true
  whenever the callback runs.)
\<close>

definition activateInner :: "nat \<Rightarrow> 'a \<Rightarrow> 'a lazy \<Rightarrow> 'a lazy" where
  "activateInner wait args s =
     (if \<not> isRunning s then
        (if wait = 0
         then s\<lparr>isRunning := True, inFlight := inFlight s @ [args], invoked := invoked s @ [args]\<rparr>
         else s\<lparr>isRunning := True, waitTimers := waitTimers s @ [args]\<rparr>)
      else s\<lparr>argsNext := Some args\<rparr>)"

definition invoke :: "('a \<Rightarrow> 'a list) \<Rightarrow> nat \<Rightarrow> 'a \<Rightarrow> 'a lazy \<Rightarrow> 'a lazy" where
  "invoke callback wait args s =
     foldl (\<lambda>s' args'. activateInner wait args' s')
       (s\<lparr>inFlight := inFlight s @ [args], invoked := invoked s @ [args]\<rparr>) (callback args)"

text \<open>\<^verbatim>\<open>activate(...args)\<close> up to its first \<^verbatim>\<open>await\<close>.\<close>

definition activate :: "('a \<Rightarrow> 'a list) \<Rightarrow> nat \<Rightarrow> 'a \<Rightarrow> 'a lazy \<Rightarrow> 'a lazy" where
  "activate callback wait args s =
     (if \<not> isRunning s then
        (if wait = 0 then invoke callback wait args (s\<lparr>isRunning := True\<rparr>)
         else s\<lparr>isRunning := True, waitTimers := waitTimers s @ [args]\<rparr>)
      else s\<lparr>argsNext := Some args\<rparr>)"

text \<open>
  What can happen next: a call of \<^verbatim>\<open>activate\<close> from outside; the \<open>i\<close>-th \<^verbatim>\<open>wait\<close>
  timer fires and invokes the callback; the \<open>i\<close>-th invocation in flight settles,
  fulfilled or not, and on fulfilment \<^verbatim>\<open>activate\<close> resumes and sets the \<^verbatim>\<open>delay\<close>
  timer; a \<^verbatim>\<open>delay\<close> timer fires. An event that cannot happen in a state gives \<open>None\<close>.
\<close>

datatype 'a lazyEvent = Activate 'a | WaitElapsed nat | Settled nat bool | DelayElapsed

definition dropAt :: "nat \<Rightarrow> 'b list \<Rightarrow> 'b list" where
  "dropAt i xs = take i xs @ drop (Suc i) xs"

fun lazyStep :: "('a \<Rightarrow> 'a list) \<Rightarrow> nat \<Rightarrow> 'a lazyEvent \<Rightarrow> 'a lazy \<Rightarrow> 'a lazy option" where
  "lazyStep callback wait (Activate args) s = Some (activate callback wait args s)"
| "lazyStep callback wait (WaitElapsed i) s =
     (if i < length (waitTimers s)
      then Some (invoke callback wait (waitTimers s ! i) (s\<lparr>waitTimers := dropAt i (waitTimers s)\<rparr>))
      else None)"
| "lazyStep callback wait (Settled i fulfilled) s =
     (if i < length (inFlight s)
      then Some (s\<lparr>inFlight := dropAt i (inFlight s),
                   delayTimers := delayTimers s + (if fulfilled then 1 else 0)\<rparr>)
      else None)"
| "lazyStep callback wait DelayElapsed s =
     (if 0 < delayTimers s then
        (let released = s\<lparr>delayTimers := delayTimers s - 1, isRunning := False\<rparr>
         in case argsNext released of
              None \<Rightarrow> Some released
            | Some args \<Rightarrow> Some ((activate callback wait args released)\<lparr>argsNext := None\<rparr>))
      else None)"

fun lazyRun :: "('a \<Rightarrow> 'a list) \<Rightarrow> nat \<Rightarrow> 'a lazyEvent list \<Rightarrow> 'a lazy \<Rightarrow> 'a lazy option" where
  "lazyRun callback wait [] s = Some s"
| "lazyRun callback wait (e # es) s =
     (case lazyStep callback wait e s of
        None \<Rightarrow> None
      | Some s' \<Rightarrow> lazyRun callback wait es s')"

text \<open>
  The timers that are set and the invocations in flight are together at most one, and
  none unless \<^verbatim>\<open>isRunning\<close> is true.
\<close>

definition lazyInv :: "'a lazy \<Rightarrow> bool" where
  "lazyInv s \<longleftrightarrow>
     length (waitTimers s) + length (inFlight s) + delayTimers s \<le> (if isRunning s then 1 else 0)"

section \<open>Utils.ts: promiseLimit\<close>

text \<open>
  The state of one gate \<^verbatim>\<open>promiseLimit(concurrency)\<close>: the counter \<^verbatim>\<open>inProgress\<close>; the
  submitted operations whose \<^verbatim>\<open>waitUntil\<close> interval is still set; those whose
  \<^verbatim>\<open>waitUntil\<close> promise has resolved and whose continuation waits in the microtask
  queue; and those whose \<^verbatim>\<open>func()\<close> has been called and has not settled. \<open>'o\<close> names
  a submitted operation. The limit is a natural number.
\<close>

record 'o gate =
  inProgress :: int
  polling :: "'o list"
  resumable :: "'o list"
  operating :: "'o list"

definition closed :: "'o gate" where
  "closed = \<lparr>inProgress = 0, polling = [], resumable = [], operating = []\<rparr>"

text \<open>
  \<open>Submit\<close> is a call of the function that \<^verbatim>\<open>promiseLimit\<close> returned. With
  \<^verbatim>\<open>concurrency === 0\<close> it calls \<^verbatim>\<open>func\<close> at once; otherwise it sets an interval.
  \<open>Tick\<close> is one run of the interval callback of a waiting operation: timer callbacks run
  only when the microtask queue is empty; when the condition holds the interval is
  cleared and the promise resolved. \<open>Resume\<close> runs the first continuation of the
  queue: \<^verbatim>\<open>inProgress++\<close>, then \<^verbatim>\<open>func()\<close>. \<open>Finish\<close> is the settling of an
  operation: fulfilled, the function resumes with \<^verbatim>\<open>inProgress--\<close>; rejected or thrown,
  it ends there.
\<close>

datatype 'o gateEvent = Submit 'o | Tick 'o | Resume | Finish 'o bool

fun gateStep :: "nat \<Rightarrow> 'o gateEvent \<Rightarrow> 'o gate \<Rightarrow> 'o gate option" where
  "gateStep concurrency (Submit op) s =
     (if concurrency = 0 then Some (s\<lparr>operating := operating s @ [op]\<rparr>)
      else Some (s\<lparr>polling := polling s @ [op]\<rparr>))"
| "gateStep concurrency (Tick op) s =
     (if op \<in> set (polling s) \<and> resumable s = [] then
        (if inProgress s < int concurrency
         then Some (s\<lparr>polling := remove1 op (polling s), resumable := resumable s @ [op]\<rparr>)
         else Some s)
      else None)"
| "gateStep concurrency Resume s =
     (case resumable s of
        [] \<Rightarrow> None
      | op # rest \<Rightarrow>
          Some (s\<lparr>resumable := rest, inProgress := inProgress s + 1,
                  operating := operating s @ [op]\<rparr>))"
| "gateStep concurrency (Finish op fulfilled) s =
     (if op \<in> set (operating s) then
        (if concurrency = 0 then Some (s\<lparr>operating := remove1 op (operating s)\<rparr>)
         else Some (s\<lparr>operating := remove1 op (operating s),
                      inProgress := (if fulfilled then inProgress s - 1 else inProgress s)\<rparr>))
      else None)"

fun gateRun :: "nat \<Rightarrow> 'o gateEvent list \<Rightarrow> 'o gate \<Rightarrow> 'o gate option" where
  "gateRun concurrency [] s = Some s"
| "gateRun concurrency (e # es) s =
     (case gateStep concurrency e s of
        None \<Rightarrow> None
      | Some s' \<Rightarrow> gateRun concurrency es s')"

text \<open>The operations among the events of a run that ended without fulfilment.\<close>

fun failures :: "'o gateEvent list \<Rightarrow> nat" where
  "failures [] = 0"
| "failures (Finish op fulfilled # es) = (if fulfilled then 0 else 1) + failures es"
| "failures (e # es) = failures es"

section \<open>Properties of versionClear\<close>

lemma trimEnd_append_ws:
  assumes "\<forall>c \<in> set ws. isWhiteSpace c"
  shows "trimEnd (v @ ws) = trimEnd v"
proof -
  have "dropWhile isWhiteSpace (rev ws @ rev v) = dropWhile isWhiteSpace (rev v)"
    by (rule dropWhile_append2) (use assms in auto)
  then show ?thesis by (simp add: trimEnd_def)
qed

lemma trimEnd_id:
  assumes "v = [] \<or> \<not> isWhiteSpace (last v)"
  shows "trimEnd v = v"
proof (cases v rule: rev_cases)
  case Nil
  then show ?thesis by (simp add: trimEnd_def)
next
  case (snoc ys y)
  with assms show ?thesis by (simp add: trimEnd_def)
qed

text \<open>
  C9. A declared range is an operator prefix without digits, followed by a bare version
  that begins with a digit (or is empty), followed by white space. The baseline is
  exactly the bare version: nothing after its first digit is dropped, so a prerelease
  tag stays. The baseline of \<^verbatim>\<open>^13.0.7-canary.3\<close> is \<^verbatim>\<open>13.0.7-canary.3\<close>, not
  \<^verbatim>\<open>13.0.7\<close>.
\<close>

theorem versionClear_keeps_bare_version:
  "(\<forall>c \<in> set prefix. \<not> isDigit c) \<Longrightarrow>
   (v = [] \<or> isDigit (hd v) \<and> \<not> isWhiteSpace (last v)) \<Longrightarrow>
   (\<forall>c \<in> set ws. isWhiteSpace c) \<Longrightarrow>
   versionClear (prefix @ v @ ws) = v \<and>
   versionClear ''^13.0.7-canary.3'' = ''13.0.7-canary.3'' \<and>
   versionClear ''^13.0.7-canary.3'' \<noteq> ''13.0.7''"
proof -
  assume p: "\<forall>c \<in> set prefix. \<not> isDigit c"
    and v: "v = [] \<or> isDigit (hd v) \<and> \<not> isWhiteSpace (last v)"
    and w: "\<forall>c \<in> set ws. isWhiteSpace c"
  have nd: "\<forall>c \<in> set ws. \<not> isDigit c"
    using w by (auto simp: isWhiteSpace_def isDigit_def)
  have "dropWhile (\<lambda>c. \<not> isDigit c) (prefix @ v @ ws) = dropWhile (\<lambda>c. \<not> isDigit c) (v @ ws)"
    by (rule dropWhile_append2) (use p in auto)
  also have "\<dots> = (if v = [] then [] else v @ ws)"
    using v nd by (cases v) auto
  finally have "versionClear (prefix @ v @ ws) = trimEnd (if v = [] then [] else v @ ws)"
    by (simp add: versionClear_def)
  also have "\<dots> = trimEnd v"
    using w by (simp add: trimEnd_append_ws)
  also have "\<dots> = v"
    using v by (intro trimEnd_id) auto
  finally have general: "versionClear (prefix @ v @ ws) = v" .
  have example: "versionClear ''^13.0.7-canary.3'' = ''13.0.7-canary.3''"
    by (simp add: versionClear_def trimEnd_def isDigit_def isWhiteSpace_def)
  from general example show ?thesis by simp
qed

theorem versionClear_keeps_bare_version_witness:
  "versionClear (''>= '' @ ''1.2.3-beta.1'' @ ''  '') = ''1.2.3-beta.1''"
proof -
  have p: "\<forall>c \<in> set ''>= ''. \<not> isDigit c" by (simp add: isDigit_def)
  have v: "''1.2.3-beta.1'' = [] \<or> isDigit (hd ''1.2.3-beta.1'') \<and> \<not> isWhiteSpace (last ''1.2.3-beta.1'')"
    by (simp add: isDigit_def isWhiteSpace_def)
  have w: "\<forall>c \<in> set ''  ''. isWhiteSpace c" by (simp add: isWhiteSpace_def)
  from versionClear_keeps_bare_version [OF p v w] show ?thesis by blast
qed

section \<open>Properties of the fetch layer\<close>

lemma settle_Pending:
  "p < length ps \<Longrightarrow> ps ! p = Pending \<Longrightarrow> settle p outcome ps ! p = outcome"
  by (simp add: settle_def)

lemma length_settle: "length (settle p outcome ps) = length ps"
  by (simp add: settle_def)

lemma getPackageVersions_absent:
  "CACHE_PACKAGES s name = None \<Longrightarrow> getPackageVersions now lifetime name s = startView now name s"
  by (simp add: getPackageVersions_def)

text \<open>
  C1, as amended. When \<^verbatim>\<open>npm view\<close> fails (an error from \<^verbatim>\<open>exec\<close>, or output that
  \<^verbatim>\<open>JSON.parse\<close> rejects) its callback first removes the cache entry of the name and
  then rejects the promise, so the next call for the name, at any time and with any
  lifetime, starts a new query. The callback of \<^verbatim>\<open>npm ls\<close> never removes the cache entry
  and never rejects: without usable output it fulfils the promise with \<^verbatim>\<open>undefined\<close>.
  The entry stays until its lifetime of 60 seconds ends: a call at any time at which the
  entry is valid returns the cached promise and executes nothing, and a call at a time
  at which it is no longer valid starts a new query.
\<close>

theorem fetch_failure:
  assumes failed: "error \<or> JSON_parse stdout = None"
    and unusable: "out = [] \<or> JSON_parse out = None"
  shows
    "(\<exists>deleted. CACHE_PACKAGES deleted name = None \<and> viewPromises deleted = viewPromises s \<and>
        npmViewCallback JSON_parse name p error stdout s =
          deleted\<lparr>viewPromises := settle p Rejected (viewPromises deleted)\<rparr>) \<and>
     CACHE_PACKAGES (npmViewCallback JSON_parse name p error stdout s) name = None \<and>
     (p < length (viewPromises s) \<and> viewPromises s ! p = Pending \<longrightarrow>
        viewPromises (npmViewCallback JSON_parse name p error stdout s) ! p = Rejected) \<and>
     (\<forall>now lifetime.
        executed (snd (getPackageVersions now lifetime name (npmViewCallback JSON_parse name p error stdout s))) =
        executed s @ [NpmView name (length (viewPromises s))]) \<and>
     CACHE_PACKAGES_INSTALLED (npmLsCallback JSON_parse dependenciesOf q out s) = CACHE_PACKAGES_INSTALLED s \<and>
     (q < length (lsPromises s) \<and> lsPromises s ! q = Pending \<longrightarrow>
        lsPromises (npmLsCallback JSON_parse dependenciesOf q out s) ! q = Fulfilled None) \<and>
     (\<forall>now cwd entry.
        CACHE_PACKAGES_INSTALLED s = Some entry \<and> isValid entry now (60 * 1000) \<longrightarrow>
        getPackagesInstalled now cwd (npmLsCallback JSON_parse dependenciesOf q out s) =
          (entryValue entry, npmLsCallback JSON_parse dependenciesOf q out s)) \<and>
     (\<forall>now cwd entry.
        CACHE_PACKAGES_INSTALLED s = Some entry \<and> \<not> isValid entry now (60 * 1000) \<longrightarrow>
        executed (snd (getPackagesInstalled now cwd (npmLsCallback JSON_parse dependenciesOf q out s))) =
          executed s @ [NpmLs cwd (length (lsPromises s))])"
proof -
  let ?s' = "npmViewCallback JSON_parse name p error stdout s"
  let ?t = "npmLsCallback JSON_parse dependenciesOf q out s"
  let ?deleted = "s\<lparr>CACHE_PACKAGES := (CACHE_PACKAGES s)(name := None)\<rparr>"
  from failed have none: "(if \<not> error then JSON_parse stdout else None) = None" by auto
  have eq: "?s' = ?deleted\<lparr>viewPromises := settle p Rejected (viewPromises ?deleted)\<rparr>"
    by (simp add: npmViewCallback_def none Let_def)
  have 1: "\<exists>deleted. CACHE_PACKAGES deleted name = None \<and> viewPromises deleted = viewPromises s \<and>
        ?s' = deleted\<lparr>viewPromises := settle p Rejected (viewPromises deleted)\<rparr>"
    by (rule exI [of _ ?deleted]) (simp add: eq)
  have 2: "CACHE_PACKAGES ?s' name = None" by (simp add: eq)
  have 3: "p < length (viewPromises s) \<and> viewPromises s ! p = Pending \<longrightarrow> viewPromises ?s' ! p = Rejected"
    by (simp add: eq settle_Pending)
  have len: "length (viewPromises ?s') = length (viewPromises s)"
    by (simp add: eq settle_def)
  have ex: "executed ?s' = executed s" by (simp add: eq)
  have 4: "\<forall>now lifetime. executed (snd (getPackageVersions now lifetime name ?s')) =
        executed s @ [NpmView name (length (viewPromises s))]"
    using 2 len ex by (simp add: getPackageVersions_absent startView_def Let_def)
  have 5: "CACHE_PACKAGES_INSTALLED ?t = CACHE_PACKAGES_INSTALLED s"
    by (simp add: npmLsCallback_def Let_def)
  have 6: "q < length (lsPromises s) \<and> lsPromises s ! q = Pending \<longrightarrow>
        lsPromises ?t ! q = Fulfilled None"
    using unusable by (auto simp: npmLsCallback_def Let_def settle_Pending)
  have 7: "\<forall>now cwd entry.
        CACHE_PACKAGES_INSTALLED s = Some entry \<and> isValid entry now (60 * 1000) \<longrightarrow>
        getPackagesInstalled now cwd ?t = (entryValue entry, ?t)"
    using 5 by (simp add: getPackagesInstalled_def)
  have lenq: "length (lsPromises ?t) = length (lsPromises s)" and exq: "executed ?t = executed s"
    by (simp_all add: npmLsCallback_def Let_def length_settle)
  have 8: "\<forall>now cwd entry.
        CACHE_PACKAGES_INSTALLED s = Some entry \<and> \<not> isValid entry now (60 * 1000) \<longrightarrow>
        executed (snd (getPackagesInstalled now cwd ?t)) =
          executed s @ [NpmLs cwd (length (lsPromises s))]"
    using 5 lenq exq by (simp add: getPackagesInstalled_def startLs_def Let_def)
  from 1 2 3 4 5 6 7 8 show ?thesis by blast
qed

theorem fetch_failure_witness:
  "(let s1 = snd (getPackageVersions 0 1000 ''left-pad'' (initial :: (string list, unit) npm));
        s2 = npmViewCallback (\<lambda>_. None) ''left-pad'' 0 True [] s1;
        t1 = snd (getPackagesInstalled 0 ''/project'' (initial :: (string list, unit) npm));
        t2 = npmLsCallback (\<lambda>_. None) (\<lambda>_. None) 0 [] t1
    in viewPromises s1 ! 0 = Pending \<and>
       CACHE_PACKAGES s2 ''left-pad'' = None \<and> viewPromises s2 ! 0 = Rejected \<and>
       executed (snd (getPackageVersions 1 1000 ''left-pad'' s2)) =
         [NpmView ''left-pad'' 0, NpmView ''left-pad'' 1] \<and>
       lsPromises t2 ! 0 = Fulfilled None \<and>
       getPackagesInstalled 59999 ''/project'' t2 = (0, t2) \<and>
       executed (snd (getPackagesInstalled 60000 ''/project'' t2)) =
         [NpmLs ''/project'' 0, NpmLs ''/project'' 1])"
proof -
  let ?s1 = "snd (getPackageVersions 0 1000 ''left-pad'' (initial :: (string list, unit) npm))"
  let ?t1 = "snd (getPackagesInstalled 0 ''/project'' (initial :: (string list, unit) npm))"
  let ?e = "\<lparr>entryValue = 0, createdAt = 0\<rparr>"
  have s1: "viewPromises ?s1 = [Pending]" "executed ?s1 = [NpmView ''left-pad'' 0]"
    by (simp_all add: getPackageVersions_def startView_def initial_def Let_def)
  have t1: "lsPromises ?t1 = [Pending]" "executed ?t1 = [NpmLs ''/project'' 0]"
    "CACHE_PACKAGES_INSTALLED ?t1 = Some ?e"
    by (simp_all add: getPackagesInstalled_def startLs_def initial_def Let_def)
  have v: "isValid ?e 59999 (60 * 1000)" "\<not> isValid ?e 60000 (60 * 1000)"
    by (simp_all add: isValid_def)
  have failed: "True \<or> (\<lambda>_. None :: string list option) [] = None" by simp
  have unusable: "([] :: string) = [] \<or> (\<lambda>_. None :: string list option) [] = None" by simp
  note view = fetch_failure [OF failed unusable, where name = "''left-pad''" and p = 0 and s = ?s1]
  note ls = fetch_failure [OF failed unusable, where q = 0 and s = ?t1
      and dependenciesOf = "\<lambda>_. None :: unit option"]
  from view s1 have a: "CACHE_PACKAGES (npmViewCallback (\<lambda>_. None) ''left-pad'' 0 True [] ?s1) ''left-pad'' = None"
    "viewPromises (npmViewCallback (\<lambda>_. None) ''left-pad'' 0 True [] ?s1) ! 0 = Rejected"
    "executed (snd (getPackageVersions 1 1000 ''left-pad''
        (npmViewCallback (\<lambda>_. None) ''left-pad'' 0 True [] ?s1))) =
      [NpmView ''left-pad'' 0, NpmView ''left-pad'' 1]"
    by simp_all
  from ls t1 v have b: "lsPromises (npmLsCallback (\<lambda>_. None) (\<lambda>_. None) 0 [] ?t1) ! 0 = Fulfilled None"
    "getPackagesInstalled 59999 ''/project'' (npmLsCallback (\<lambda>_. None) (\<lambda>_. None) 0 [] ?t1) =
      (0, npmLsCallback (\<lambda>_. None) (\<lambda>_. None) 0 [] ?t1)"
    "executed (snd (getPackagesInstalled 60000 ''/project''
        (npmLsCallback (\<lambda>_. None) (\<lambda>_. None) 0 [] ?t1))) =
      [NpmLs ''/project'' 0, NpmLs ''/project'' 1]"
    by simp_all
  from s1 a b show ?thesis by (simp add: Let_def)
qed

text \<open>
  The claim as stated fails on the installed-versions path: \<^verbatim>\<open>npm ls\<close> prints nothing,
  the promise is fulfilled, not rejected, the cache entry stays, and a call one
  millisecond later returns the same promise and executes nothing.
\<close>

theorem fetch_failure_counterexample:
  "(let s1 = snd (getPackagesInstalled 0 ''/project'' (initial :: (string list, unit) npm));
        s2 = npmLsCallback (\<lambda>_. None) (\<lambda>_. None) 0 [] s1
    in CACHE_PACKAGES_INSTALLED s2 \<noteq> None \<and>
       lsPromises s2 ! 0 = Fulfilled None \<and>
       getPackagesInstalled 1 ''/project'' s2 = (0, s2) \<and>
       executed (snd (getPackagesInstalled 1 ''/project'' s2)) = executed s1)"
  by (simp add: getPackagesInstalled_def startLs_def npmLsCallback_def initial_def settle_def
      isValid_def Let_def)

text \<open>
  What holds of two calls of \<^verbatim>\<open>getPackageVersions\<close>. The first leaves an entry for
  the name, having executed at most one command for it. Whatever happens then, as long
  as no query for the name fails and no call for the name comes when the entry has
  expired, the entry stays, and a second call at a time when the entry is valid returns
  the same promise, changes nothing and executes nothing.
\<close>

lemma fetchStep_keeps:
  assumes "CACHE_PACKAGES s name = Some entry" and "keepsEntry JSON_parse name entry e"
  shows "CACHE_PACKAGES (fetchStep JSON_parse dependenciesOf e s) name = Some entry \<and>
         viewsOf name (executed (fetchStep JSON_parse dependenciesOf e s)) = viewsOf name (executed s)"
proof (cases e)
  case (GetVersions now lifetime n)
  with assms show ?thesis
    by (auto simp: getPackageVersions_def startView_def viewsOf_def Let_def split: option.splits)
next
  case (ViewReturns n execPromise error stdout)
  with assms show ?thesis
    by (auto simp: npmViewCallback_def Let_def split: option.splits)
next
  case (GetInstalled now cwd)
  with assms show ?thesis
    by (auto simp: getPackagesInstalled_def startLs_def viewsOf_def Let_def split: option.splits)
next
  case (LsReturns execPromise stdout)
  with assms show ?thesis by (simp add: npmLsCallback_def Let_def)
qed

lemma fetchRun_keeps:
  assumes "CACHE_PACKAGES s name = Some entry" and "list_all (keepsEntry JSON_parse name entry) es"
  shows "CACHE_PACKAGES (fetchRun JSON_parse dependenciesOf es s) name = Some entry \<and>
         viewsOf name (executed (fetchRun JSON_parse dependenciesOf es s)) = viewsOf name (executed s)"
  using assms
proof (induction es arbitrary: s)
  case Nil
  then show ?case by (simp add: fetchRun_def)
next
  case (Cons e es)
  from Cons.prems have k: "keepsEntry JSON_parse name entry e"
    and ks: "list_all (keepsEntry JSON_parse name entry) es" by simp_all
  note step = fetchStep_keeps [OF Cons.prems(1) k, of dependenciesOf]
  from Cons.IH [OF conjunct1 [OF step] ks] step show ?case by (simp add: fetchRun_def)
qed

lemma getPackageVersions_entry:
  assumes "getPackageVersions now lifetime name s0 = (p1, s1)"
  shows "\<exists>entry. CACHE_PACKAGES s1 name = Some entry \<and> entryValue entry = p1 \<and>
           length (viewsOf name (executed s1)) \<le> length (viewsOf name (executed s0)) + 1"
  using assms
  by (auto simp: getPackageVersions_def startView_def viewsOf_def Let_def split: option.splits if_splits)

lemma getPackageVersions_shared:
  assumes first: "getPackageVersions now1 lifetime1 name s0 = (p1, s1)"
    and entry: "CACHE_PACKAGES s1 name = Some entry"
    and between: "list_all (keepsEntry JSON_parse name entry) es"
    and valid: "isValid entry now2 lifetime2"
    and second: "getPackageVersions now2 lifetime2 name (fetchRun JSON_parse dependenciesOf es s1) = (p2, s2)"
  shows "p2 = p1 \<and> s2 = fetchRun JSON_parse dependenciesOf es s1 \<and>
         viewsOf name (executed s2) = viewsOf name (executed s1) \<and>
         length (viewsOf name (executed s2)) \<le> length (viewsOf name (executed s0)) + 1"
proof -
  from getPackageVersions_entry [OF first] entry have e: "entryValue entry = p1"
    and one: "length (viewsOf name (executed s1)) \<le> length (viewsOf name (executed s0)) + 1"
    by auto
  from fetchRun_keeps [OF entry between, of dependenciesOf]
  have k: "CACHE_PACKAGES (fetchRun JSON_parse dependenciesOf es s1) name = Some entry"
    and v: "viewsOf name (executed (fetchRun JSON_parse dependenciesOf es s1)) = viewsOf name (executed s1)"
    by simp_all
  from second k valid have "p2 = entryValue entry" "s2 = fetchRun JSON_parse dependenciesOf es s1"
    by (simp_all add: getPackageVersions_def)
  with e v one show ?thesis by simp
qed

text \<open>
  C6. The claim fails where the entry of a query still in flight is removed by the late
  failure of an earlier query for the same name. With a lifetime of 1000 ms: a first
  call at time 0 starts query 0, which does not return. A second call at time 1000
  finds the entry expired, starts query 1 and stores a new entry. Then query 0 fails:
  its callback removes the entry of the name, which by now is the entry of query 1. A
  third call at time 1001, one millisecond after the second and with query 1 still
  pending, finds no entry and starts query 2. The second and the third call, made
  within the lifetime of the entry that the second one stored, execute two commands and
  return two different promises.
\<close>

theorem getPackageVersions_stale_failure_duplicates:
  "(let s1 = snd (getPackageVersions 0 1000 ''left-pad'' (initial :: (string list, unit) npm));
        second = getPackageVersions 1000 1000 ''left-pad'' s1;
        s3 = npmViewCallback (\<lambda>_. None) ''left-pad'' 0 True [] (snd second);
        third = getPackageVersions 1001 1000 ''left-pad'' s3
    in CACHE_PACKAGES (snd second) ''left-pad'' = Some \<lparr>entryValue = 1, createdAt = 1000\<rparr> \<and>
       isValid \<lparr>entryValue = 1, createdAt = 1000\<rparr> 1001 1000 \<and>
       CACHE_PACKAGES s3 ''left-pad'' = None \<and>
       fst second = 1 \<and> fst third = 2 \<and>
       viewPromises (snd third) = [Rejected, Pending, Pending] \<and>
       executed (snd third) =
         [NpmView ''left-pad'' 0, NpmView ''left-pad'' 1, NpmView ''left-pad'' 2])"
  by (simp add: getPackageVersions_def startView_def npmViewCallback_def initial_def settle_def
      isValid_def Let_def)

section \<open>Properties of promiseLimit\<close>

lemma length_remove1_mem: "x \<in> set xs \<Longrightarrow> length (remove1 x xs) + 1 = length xs"
  by (induction xs) auto

text \<open>
  One step of a gate with a positive limit keeps the counter and the queue within the
  limit, and changes the difference between the counter and the number of operations
  in flight only when an operation fails.
\<close>

lemma gateStep_bound:
  assumes "gateStep c e s = Some s'" and "0 < c"
    and "inProgress s + int (length (resumable s)) \<le> int c"
  shows "inProgress s' + int (length (resumable s')) \<le> int c"
proof (cases e)
  case (Finish op fulfilled)
  with assms show ?thesis by (auto split: if_splits)
qed (use assms in \<open>auto split: if_splits list.splits\<close>)

lemma gateStep_leak:
  assumes "gateStep c e s = Some s'" and "0 < c"
  shows "inProgress s' - int (length (operating s')) =
         inProgress s - int (length (operating s)) + int (failures [e])"
proof (cases e)
  case (Finish op fulfilled)
  with assms have mem: "op \<in> set (operating s)" by (auto split: if_splits)
  from length_remove1_mem [OF mem] Finish assms show ?thesis by (auto split: if_splits)
qed (use assms in \<open>auto split: if_splits list.splits\<close>)

lemma failures_Cons: "failures (e # es) = failures [e] + failures es"
  by (cases e) auto

lemma gateRun_invariant:
  assumes "gateRun c es s = Some s'" and "0 < c"
    and "inProgress s + int (length (resumable s)) \<le> int c"
  shows "inProgress s' + int (length (resumable s')) \<le> int c \<and>
         inProgress s' - int (length (operating s')) =
           inProgress s - int (length (operating s)) + int (failures es)"
  using assms
proof (induction es arbitrary: s)
  case Nil
  then show ?case by simp
next
  case (Cons e es)
  from Cons.prems(1) obtain t where t: "gateStep c e s = Some t" "gateRun c es t = Some s'"
    by (auto split: option.splits)
  from gateStep_bound [OF t(1) Cons.prems(2,3)]
  have b: "inProgress t + int (length (resumable t)) \<le> int c" .
  from Cons.IH [OF t(2) Cons.prems(2) b] gateStep_leak [OF t(1) Cons.prems(2)]
  show ?case by (simp add: failures_Cons [of e es])
qed

lemma gateRun_unlimited: "gateRun 0 (map Submit ops) s = Some (s\<lparr>operating := operating s @ ops\<rparr>)"
  by (induction ops arbitrary: s) auto

text \<open>
  C8. With the limit zero a submitted operation is called at once, whatever is already
  in flight, so any number can be in flight together. With a positive limit, in every
  state that a sequence of events leads to from the start, the operations in flight are
  at most the limit; and a waiting operation leaves the wait (its \<open>Tick\<close> changes the
  state) and is called (\<open>Resume\<close>) only in a state where fewer than the limit are in
  flight. Which waiting operation ticks first is not determined: of two waiting
  operations the one submitted later may be called first.
\<close>

theorem promiseLimit_bound:
  "gateStep 0 (Submit op) s0 = Some (s0\<lparr>operating := operating s0 @ [op]\<rparr>) \<and>
   gateRun 0 (map Submit ops) closed = Some (closed\<lparr>operating := ops\<rparr>) \<and>
   gateRun 1 [Submit a, Submit b, Tick b, Resume] closed =
     Some \<lparr>inProgress = 1, polling = [a], resumable = [], operating = [b]\<rparr> \<and>
   (0 < c \<and> gateRun c es closed = Some s \<longrightarrow>
      length (operating s) \<le> c \<and>
      (gateStep c (Tick op) s = Some s' \<and> s' \<noteq> s \<longrightarrow> length (operating s) < c) \<and>
      (gateStep c Resume s = Some s' \<longrightarrow> length (operating s) < c))"
proof -
  have 1: "gateStep 0 (Submit op) s0 = Some (s0\<lparr>operating := operating s0 @ [op]\<rparr>)"
    by simp
  have 2: "gateRun 0 (map Submit ops) closed = Some (closed\<lparr>operating := ops\<rparr>)"
    by (simp add: gateRun_unlimited closed_def)
  have 3: "length (operating s) \<le> c \<and>
      (gateStep c (Tick op) s = Some s' \<and> s' \<noteq> s \<longrightarrow> length (operating s) < c) \<and>
      (gateStep c Resume s = Some s' \<longrightarrow> length (operating s) < c)"
    if c: "0 < c" and run: "gateRun c es closed = Some s"
  proof -
    have "inProgress (closed :: 'a gate) + int (length (resumable (closed :: 'a gate))) \<le> int c"
      by (simp add: closed_def)
    from gateRun_invariant [OF run c this]
    have inv: "inProgress s + int (length (resumable s)) \<le> int c"
      "inProgress s - int (length (operating s)) = int (failures es)"
      by (simp_all add: closed_def)
    then have le: "int (length (operating s)) \<le> inProgress s" by linarith
    from inv le have a: "length (operating s) \<le> c" by linarith
    have b: "length (operating s) < c" if "gateStep c (Tick op) s = Some s'" "s' \<noteq> s"
      using that le by (auto split: if_splits)
    have d: "length (operating s) < c" if "gateStep c Resume s = Some s'"
      using that inv le by (auto split: list.splits)
    from a b d show ?thesis by blast
  qed
  have 4: "gateRun 1 [Submit a, Submit b, Tick b, Resume] closed =
     Some \<lparr>inProgress = 1, polling = [a], resumable = [], operating = [b]\<rparr>"
    by (simp add: closed_def)
  from 1 2 3 4 show ?thesis by blast
qed

theorem promiseLimit_bound_witness:
  "gateRun 1 [Submit ''a'', Submit ''b'', Tick ''a'', Resume, Tick ''b'', Finish ''a'' True,
              Tick ''b'', Resume] closed =
     Some \<lparr>inProgress = 1, polling = [], resumable = [], operating = [''b'']\<rparr> \<and>
   gateRun 1 [Submit ''a'', Submit ''b'', Tick ''a'', Resume, Tick ''b''] closed =
     Some \<lparr>inProgress = 1, polling = [''b''], resumable = [], operating = [''a'']\<rparr> \<and>
   length (operating \<lparr>inProgress = 1, polling = [], resumable = [], operating = [''b'']\<rparr>) \<le> 1"
proof -
  let ?es = "[Submit ''a'', Submit ''b'', Tick ''a'', Resume, Tick ''b'', Finish ''a'' True,
              Tick ''b'', Resume]"
  let ?s = "\<lparr>inProgress = 1, polling = [], resumable = [], operating = [''b'']\<rparr>"
  have run: "gateRun 1 ?es closed = Some ?s" by (simp add: closed_def)
  have run2: "gateRun 1 [Submit ''a'', Submit ''b'', Tick ''a'', Resume, Tick ''b''] closed =
     Some \<lparr>inProgress = 1, polling = [''b''], resumable = [], operating = [''a'']\<rparr>"
    by (simp add: closed_def)
  from promiseLimit_bound [where c = 1 and es = ?es and s = ?s] run
  have "length (operating ?s) \<le> 1" by simp
  with run run2 show ?thesis by simp
qed

text \<open>
  C10. With a positive limit, the settling of an operation that was not fulfilled takes
  it out of flight and leaves the counter as it is. So in every state that a sequence of
  events leads to from the start, the counter is the number of operations in flight plus
  the number of operations that have failed, and the operations in flight or about to be
  called, together with the failed ones, are at most the limit: each failure takes one
  place for good.
\<close>

theorem promiseLimit_failure_leaks:
  "0 < c \<Longrightarrow> gateRun c es closed = Some s \<Longrightarrow>
   inProgress s = int (length (operating s)) + int (failures es) \<and>
   length (operating s) + length (resumable s) + failures es \<le> c \<and>
   (op \<in> set (operating s) \<longrightarrow>
      gateStep c (Finish op False) s =
        Some (s\<lparr>operating := remove1 op (operating s), inProgress := inProgress s\<rparr>))"
proof -
  assume c: "0 < c" and run: "gateRun c es closed = Some s"
  have "inProgress (closed :: 'a gate) + int (length (resumable (closed :: 'a gate))) \<le> int c"
    by (simp add: closed_def)
  from gateRun_invariant [OF run c this]
  have inv: "inProgress s + int (length (resumable s)) \<le> int c"
    "inProgress s - int (length (operating s)) = int (failures es)"
    by (simp_all add: closed_def)
  then have 1: "inProgress s = int (length (operating s)) + int (failures es)" by linarith
  with inv have 2: "length (operating s) + length (resumable s) + failures es \<le> c" by linarith
  have 3: "op \<in> set (operating s) \<longrightarrow>
      gateStep c (Finish op False) s =
        Some (s\<lparr>operating := remove1 op (operating s), inProgress := inProgress s\<rparr>)"
    using c by simp
  from 1 2 3 show ?thesis by blast
qed

theorem promiseLimit_failure_leaks_witness:
  "gateRun 1 [Submit ''a'', Tick ''a'', Resume, Finish ''a'' False, Submit ''b'', Tick ''b''] closed =
     Some \<lparr>inProgress = 1, polling = [''b''], resumable = [], operating = []\<rparr> \<and>
   failures [Submit ''a'', Tick ''a'', Resume, Finish ''a'' False, Submit ''b'', Tick ''b''] = 1 \<and>
   length (operating \<lparr>inProgress = 1, polling = [''b''], resumable = [], operating = ([] :: string list)\<rparr>) +
   length (resumable \<lparr>inProgress = 1, polling = [''b''], resumable = [], operating = ([] :: string list)\<rparr>) + 1 \<le> 1"
proof -
  let ?es = "[Submit ''a'', Tick ''a'', Resume, Finish ''a'' False, Submit ''b'', Tick ''b'']"
  let ?s = "\<lparr>inProgress = 1, polling = [''b''], resumable = [], operating = ([] :: string list)\<rparr>"
  have run: "gateRun 1 ?es closed = Some ?s" by (simp add: closed_def)
  have f: "failures ?es = 1" by simp
  from promiseLimit_failure_leaks [of 1 ?es ?s, OF _ run] f
  have "length (operating ?s) + length (resumable ?s) + 1 \<le> 1" by simp
  with run f show ?thesis by simp
qed

section \<open>Properties of lazyCallback\<close>

text \<open>
  While \<^verbatim>\<open>isRunning\<close> is true, the calls of \<^verbatim>\<open>activate\<close> that the callback makes from
  inside its invocation only write \<^verbatim>\<open>argsNext\<close>, and the last one stays.
\<close>

lemma foldl_activateInner:
  "isRunning s \<Longrightarrow>
   foldl (\<lambda>s' args'. activateInner wait args' s') s as =
     s\<lparr>argsNext := (if as = [] then argsNext s else Some (last as))\<rparr>"
proof (induction as rule: rev_induct)
  case Nil
  then show ?case by simp
next
  case (snoc a as)
  then show ?case by (simp add: activateInner_def)
qed

lemma invoke_running:
  "isRunning s \<Longrightarrow>
   invoke callback wait args s =
     s\<lparr>inFlight := inFlight s @ [args], invoked := invoked s @ [args],
       argsNext := (if callback args = [] then argsNext s else Some (last (callback args)))\<rparr>"
  by (simp add: invoke_def foldl_activateInner)

lemma activate_inv: "lazyInv s \<Longrightarrow> lazyInv (activate callback wait args s)"
  by (auto simp: lazyInv_def activate_def invoke_running split: if_splits)

lemma lazyStep_inv:
  assumes "lazyInv s" and "lazyStep callback wait e s = Some s'"
  shows "lazyInv s'"
proof (cases e)
  case (Activate args)
  with assms show ?thesis by (auto simp: activate_inv)
next
  case (WaitElapsed i)
  with assms have i: "i < length (waitTimers s)" by (auto split: if_splits)
  with assms(1) have run: "isRunning s"
    and len: "length (waitTimers s) = 1" "length (inFlight s) \<le> 0" "delayTimers s = 0"
    by (auto simp: lazyInv_def simp del: length_0_conv split: if_splits)
  from len have one: "length (waitTimers s) = 1" "inFlight s = []" "delayTimers s = 0"
    by simp_all
  from WaitElapsed assms(2) i run one show ?thesis
    by (auto simp: lazyInv_def invoke_running dropAt_def)
next
  case (Settled i fulfilled)
  with assms have i: "i < length (inFlight s)" by (auto split: if_splits)
  with assms(1) have run: "isRunning s"
    and len: "length (waitTimers s) \<le> 0" "length (inFlight s) = 1" "delayTimers s = 0"
    by (auto simp: lazyInv_def simp del: length_0_conv split: if_splits)
  from Settled assms(2) i run len show ?thesis
    by (auto simp: lazyInv_def dropAt_def)
next
  case DelayElapsed
  with assms have d: "0 < delayTimers s" by (auto split: if_splits)
  let ?released = "s\<lparr>delayTimers := delayTimers s - 1, isRunning := False\<rparr>"
  from assms(1) d have r: "lazyInv ?released"
    by (auto simp: lazyInv_def split: if_splits)
  show ?thesis
  proof (cases "argsNext s")
    case None
    with DelayElapsed assms(2) d r show ?thesis by (auto simp: Let_def)
  next
    case (Some args)
    with DelayElapsed assms(2) d
    have "s' = (activate callback wait args ?released)\<lparr>argsNext := None\<rparr>"
      by (auto simp: Let_def)
    moreover from activate_inv [OF r] have "lazyInv (activate callback wait args ?released)" .
    ultimately show ?thesis by (simp add: lazyInv_def)
  qed
qed

lemma lazyRun_inv: "lazyInv s \<Longrightarrow> lazyRun callback wait es s = Some s' \<Longrightarrow> lazyInv s'"
proof (induction es arbitrary: s)
  case Nil
  then show ?case by simp
next
  case (Cons e es)
  then show ?case by (auto split: option.splits dest: lazyStep_inv)
qed

text \<open>
  What holds for every callback and every sequence of events: at most one invocation
  is in flight; a call of \<^verbatim>\<open>activate\<close> while \<^verbatim>\<open>isRunning\<close> is true only overwrites
  \<^verbatim>\<open>argsNext\<close>.
\<close>

lemma lazyCallback_one_in_flight:
  "lazyRun callback wait es idle = Some s \<Longrightarrow> length (inFlight s) \<le> 1"
proof -
  assume "lazyRun callback wait es idle = Some s"
  with lazyRun_inv [of idle callback wait es s] have "lazyInv s" by (simp add: lazyInv_def idle_def)
  then show ?thesis by (auto simp: lazyInv_def split: if_splits)
qed

lemma lazyCallback_overwrites_pending:
  "isRunning s \<Longrightarrow> lazyStep callback wait (Activate args) s = Some (s\<lparr>argsNext := Some args\<rparr>)"
  by (simp add: activate_def)

text \<open>
  When the invocation in flight is fulfilled and the \<^verbatim>\<open>delay\<close> timer fires, the pending
  call is started (invoked when \<^verbatim>\<open>wait\<close> is zero, its \<^verbatim>\<open>wait\<close> timer set otherwise) and the
  slot is emptied. Emptying comes last: it also discards what the callback asked for
  from inside the invocation that was just started.
\<close>

lemma lazyCallback_runs_pending:
  assumes "lazyInv s" and "0 < delayTimers s" and "argsNext s = Some args"
  shows "lazyStep callback wait DelayElapsed s =
     Some (if wait = 0
           then s\<lparr>delayTimers := 0, isRunning := True, inFlight := [args],
                   invoked := invoked s @ [args], argsNext := None\<rparr>
           else s\<lparr>delayTimers := 0, isRunning := True, waitTimers := [args], argsNext := None\<rparr>)"
proof -
  from assms(1,2) have "delayTimers s = 1" "length (waitTimers s) \<le> 0" "length (inFlight s) \<le> 0"
    by (auto simp: lazyInv_def simp del: length_0_conv split: if_splits)
  then have "delayTimers s = 1" "waitTimers s = []" "inFlight s = []"
    by simp_all
  with assms(3) show ?thesis
    by (auto simp: activate_def invoke_running Let_def)
qed

text \<open>
  C7. The claim fails where the callback calls \<^verbatim>\<open>activate\<close> itself. Take \<^verbatim>\<open>wait\<close> zero
  and a callback that, invoked with 2, at once calls \<^verbatim>\<open>activate(3)\<close>. The calls 1 and 2
  arrive; 1 is invoked and 2 waits in the slot. When 1 has settled and the timer fires,
  2 is invoked from the timer's callback; its call with 3 arrives while 2 is in flight
  and is written to the slot, and the timer's callback then empties the slot. After 2
  has settled nothing is pending: 3 never runs. When the call with 2 comes first, so that
  2 is invoked by \<^verbatim>\<open>activate\<close> directly, 3 is kept and runs. Also, an invocation that
  throws leaves \<^verbatim>\<open>isRunning\<close> true with no timer set, and no pending call runs from then
  on.
\<close>

theorem lazyCallback_drops_inner_call:
  "lazyRun (\<lambda>a. if a = 2 then [3] else []) 0
     [Activate (1 :: nat), Activate 2, Settled 0 True, DelayElapsed, Settled 0 True, DelayElapsed] idle =
     Some (idle\<lparr>invoked := [1, 2]\<rparr>) \<and>
   lazyRun (\<lambda>a. if a = 2 then [3] else []) 0
     [Activate (2 :: nat), Settled 0 True, DelayElapsed, Settled 0 True, DelayElapsed] idle =
     Some (idle\<lparr>invoked := [2, 3]\<rparr>) \<and>
   lazyRun (\<lambda>a. []) 0 [Activate (1 :: nat), Activate 2, Settled 0 False] idle =
     Some \<lparr>isRunning = True, argsNext = Some 2, waitTimers = [], inFlight = [],
           delayTimers = 0, invoked = [1]\<rparr>"
  by (simp add: idle_def activate_def invoke_def activateInner_def dropAt_def Let_def)

section \<open>The order of the library's comparison\<close>

text \<open>
  Numerals beyond \<open>2\<^sup>5\<^sup>3\<close> are rounded: \<open>2\<^sup>5\<^sup>3 + 1\<close> is a tie and goes down to
  \<open>2\<^sup>5\<^sup>3\<close>, \<open>2\<^sup>5\<^sup>3 + 3\<close> is a tie and goes up to \<open>2\<^sup>5\<^sup>3 + 4\<close>. A version keeps such
  identifiers as strings, and the comparison finds the first two equal and the second
  above them.
\<close>

lemma toDouble_rounds:
  "toDouble 9007199254740993 = 9007199254740992 \<and>
   toDouble 9007199254740995 = 9007199254740996 \<and>
   toDouble 123456789012345678901234567890 = 123456789012345677877719597056 \<and>
   toIdent ''9007199254740990'' = Num 9007199254740990 \<and>
   toIdent ''9007199254740991'' = Str ''9007199254740991'' \<and>
   compareIdentifiers (toIdent ''9007199254740993'') (toIdent ''9007199254740992'') = 0 \<and>
   compareIdentifiers (toIdent ''9007199254740995'') (toIdent ''9007199254740992'') = 1"
  by code_simp

text \<open>
  \<open>compare\<close> is antisymmetric and its strict part is transitive. It is not a total
  preorder: \<open>compare a b = 0\<close> is not transitive.
\<close>

lemma compare_zero_not_transitive:
  "(let a = mkVersion 1 0 0 [Str ''9007199254740992'', Num 1];
        b = mkVersion 1 0 0 [Str ''9007199254740993'', Num 2];
        c = mkVersion 1 0 0 [Str ''9007199254740992'', Num 3]
    in compare a b = 0 \<and> compare b c = 0 \<and> compare a c = - 1)"
  by code_simp

lemma compareIdentifiers_key:
  "compareIdentifiers a b =
     (if comparisonKey a < comparisonKey b then - 1
      else if comparisonKey a = comparisonKey b then 0 else 1)"
  by (cases a; cases b) (auto simp: compareNumbers_def)

lemma comparePreLoop_refl: "comparePreLoop xs xs = 0"
  by (induction xs) auto

lemma comparePreLoop_sym: "comparePreLoop ys xs = - comparePreLoop xs ys"
  by (induction xs ys rule: comparePreLoop.induct) (auto simp: compareIdentifiers_key)

lemma comparePreLoop_sign: "comparePreLoop xs ys \<in> {- 1, 0, 1}"
  by (induction xs ys rule: comparePreLoop.induct) (auto simp: compareIdentifiers_key)

lemma comparePreLoop_trans:
  "comparePreLoop xs ys < 0 \<Longrightarrow> comparePreLoop ys zs < 0 \<Longrightarrow> comparePreLoop xs zs < 0"
proof (induction xs ys arbitrary: zs rule: comparePreLoop.induct)
  case (4 a as b bs)
  from 4(3) obtain c cs where zs: "zs = c # cs" by (cases zs) auto
  show ?case
  proof (cases "a = b")
    case True
    with 4 zs show ?thesis by (auto simp: compareIdentifiers_key split: if_splits)
  next
    case False
    with 4(2,3) zs show ?thesis by (auto simp: compareIdentifiers_key split: if_splits)
  qed
next
  case (3 b bs)
  then show ?case by (cases zs) auto
qed auto

lemma compareMain_key:
  "compareMain a b =
     (if (major a, minor a, patch a) < (major b, minor b, patch b) then - 1
      else if (major a, minor a, patch a) = (major b, minor b, patch b) then 0 else 1)"
  by (auto simp: compareMain_def compareNumbers_def)

lemma comparePre_sym: "comparePre b a = - comparePre a b"
  unfolding comparePre_def using comparePreLoop_sym [of "prerelease b" "prerelease a"] by auto

lemma comparePre_sign: "comparePre a b \<in> {- 1, 0, 1}"
  unfolding comparePre_def using comparePreLoop_sign [of "prerelease a" "prerelease b"] by auto

lemma comparePre_trans:
  "comparePre a b < 0 \<Longrightarrow> comparePre b c < 0 \<Longrightarrow> comparePre a c < 0"
  unfolding comparePre_def
  using comparePreLoop_trans [of "prerelease a" "prerelease b" "prerelease c"]
  by (auto split: if_splits)

lemma compare_refl: "compare a a = 0"
  by (simp add: compare_def compareMain_key comparePre_def comparePreLoop_refl)

lemma compare_sym: "compare b a = - compare a b"
  unfolding compare_def compareMain_key using comparePre_sym [of b a] by auto

lemma compare_sign: "compare a b \<in> {- 1, 0, 1}"
  unfolding compare_def compareMain_key using comparePre_sign [of a b] by auto

lemma compare_neg: "compare a b < 0 \<longleftrightarrow> compare a b = - 1"
  using compare_sign [of a b] by auto

lemma compare_trans:
  "compare a b < 0 \<Longrightarrow> compare b c < 0 \<Longrightarrow> compare a c < 0"
  unfolding compare_def compareMain_key
  using comparePre_trans [of a b c]
  by (auto split: if_splits)


lemma toDouble_small: "n \<le> MAX_SAFE_INTEGER \<Longrightarrow> toDouble n = n"
  by (simp add: toDouble_def)

text \<open>
  Rounding takes no number from above \<open>MAX_SAFE_INTEGER\<close> to one at or below it.
\<close>

lemma bitLength_bounds:
  "0 < n \<Longrightarrow> 0 < bitLength n \<and> 2 ^ nat (bitLength n - 1) \<le> n \<and> n < 2 ^ nat (bitLength n)"
proof (induction n rule: bitLength.induct)
  case (1 n)
  show ?case
  proof (cases "n = 1")
    case True
    have "bitLength (1 :: int) = 1" by (simp add: bitLength.simps)
    with True show ?thesis by simp
  next
    case False
    with 1(2) have h: "0 < n div 2" by simp
    from 1(1) [OF _ h] 1(2) have IH: "0 < bitLength (n div 2)"
      "2 ^ nat (bitLength (n div 2) - 1) \<le> n div 2" "n div 2 < 2 ^ nat (bitLength (n div 2))"
      by simp_all
    have bl: "bitLength n = bitLength (n div 2) + 1" using 1(2) by (subst bitLength.simps) simp
    have e: "nat (bitLength (n div 2)) = Suc (nat (bitLength (n div 2) - 1))" using IH(1) by simp
    from IH(2) have "2 * 2 ^ nat (bitLength (n div 2) - 1) \<le> n" by simp
    moreover from IH(3) have "n < 2 * 2 ^ nat (bitLength (n div 2))" by simp
    ultimately show ?thesis using IH(1) unfolding bl by (simp add: e nat_add_distrib)
  qed
qed


lemma toDouble_large:
  assumes "MAX_SAFE_INTEGER < n"
  shows "MAX_SAFE_INTEGER < toDouble n"
proof -
  let ?bl = "bitLength (int n)"
  let ?e = "nat (?bl - 53)"
  let ?q = "n div 2 ^ ?e"
  have p53: "(2 :: nat) ^ 53 = 9007199254740992" by simp
  from assms have n: "(2 :: nat) ^ 53 \<le> n" unfolding p53 by (simp add: MAX_SAFE_INTEGER_def)
  from assms have pos: "0 < int n" by simp
  from bitLength_bounds [OF pos] have b: "2 ^ nat (?bl - 1) \<le> int n" "int n < 2 ^ nat ?bl"
    by simp_all
  from n have "int (2 ^ 53) \<le> int n" by (simp only: of_nat_le_iff)
  then have i53: "(2 :: int) ^ 53 \<le> int n" by (simp only: of_nat_power of_nat_numeral)
  from i53 b(2) have "(2 :: int) ^ 53 < 2 ^ nat ?bl" by (rule le_less_trans)
  then have gt: "53 < nat ?bl" by (rule power_less_imp_less_exp [rotated]) simp
  then have e: "nat (?bl - 1) = 52 + ?e" by simp
  from b(1) have "int (2 ^ (52 + ?e)) \<le> int n" by (simp only: e of_nat_power of_nat_numeral)
  then have "(2 :: nat) ^ (52 + ?e) \<le> n" by (simp only: of_nat_le_iff)
  then have m: "(2 :: nat) ^ 52 * 2 ^ ?e \<le> n" by (simp only: power_add)
  have "(2 :: nat) ^ 52 \<le> ?q"
    by (subst less_eq_div_iff_mult_less_eq) (use m in simp_all)
  then have 1: "(2 :: nat) ^ 52 * 2 ^ ?e \<le> ?q * 2 ^ ?e" by (rule mult_le_mono1)
  from gt have "1 \<le> ?e" by simp
  then have "(2 :: nat) ^ 1 \<le> 2 ^ ?e" by (rule power_increasing) simp
  then have "(2 :: nat) ^ 52 * 2 ^ 1 \<le> 2 ^ 52 * 2 ^ ?e" by (rule mult_le_mono2)
  then have 2: "(2 :: nat) ^ 53 \<le> 2 ^ 52 * 2 ^ ?e" by simp
  from 2 1 have q: "(2 :: nat) ^ 53 \<le> ?q * 2 ^ ?e" by (rule order_trans)
  have "?q * 2 ^ ?e \<le> toDouble n"
    using assms by (simp add: toDouble_def Let_def)
  with q have "(2 :: nat) ^ 53 \<le> toDouble n" by (rule order_trans)
  then show ?thesis unfolding p53 by (simp add: MAX_SAFE_INTEGER_def)
qed

text \<open>So a number that the version object holds is the number its digits denote.\<close>

lemma toIdent_key:
  "identKey (toIdent s) = (if isNumeric s then (0, toNumber s, []) else (1, 0, s))"
proof (cases "isNumeric s \<and> toDouble (toNumber s) < MAX_SAFE_INTEGER")
  case True
  then have "\<not> MAX_SAFE_INTEGER < toNumber s" using toDouble_large [of "toNumber s"] by auto
  then have "toDouble (toNumber s) = toNumber s" by (simp add: toDouble_def)
  with True show ?thesis by (simp add: toIdent_def)
next
  case False
  then show ?thesis by (auto simp: toIdent_def)
qed

lemma stored_numeral:
  assumes "storedIdent (Str s)" "isNumeric s"
  shows "MAX_SAFE_INTEGER \<le> toNumber s \<and> MAX_SAFE_INTEGER \<le> toDouble (toNumber s)"
proof -
  from assms have d: "MAX_SAFE_INTEGER \<le> toDouble (toNumber s)" by (simp add: storedIdent_def)
  have "MAX_SAFE_INTEGER \<le> toNumber s"
  proof (rule ccontr)
    assume "\<not> MAX_SAFE_INTEGER \<le> toNumber s"
    then have "toDouble (toNumber s) = toNumber s" by (simp add: toDouble_small)
    with d \<open>\<not> MAX_SAFE_INTEGER \<le> toNumber s\<close> show False by simp
  qed
  with d show ?thesis by simp
qed

lemma compareIdentifiers_exact:
  assumes "storedIdent a" "storedIdent b" "plainIdent a \<or> plainIdent b"
  shows "(a = b \<longleftrightarrow> identKey a = identKey b) \<and>
         compareIdentifiers a b =
           (if identKey a < identKey b then - 1 else if identKey a = identKey b then 0 else 1)"
proof (cases a)
  case (Num n)
  note a = this
  show ?thesis
  proof (cases b)
    case (Num m)
    with a show ?thesis by (auto simp: compareNumbers_def)
  next
    case (Str t)
    show ?thesis
    proof (cases "isNumeric t")
      case True
      from stored_numeral [OF assms(2) [unfolded Str] True] assms(1) a
      show ?thesis using True Str by (auto simp: compareNumbers_def storedIdent_def)
    next
      case False
      with a Str show ?thesis by simp
    qed
  qed
next
  case (Str s)
  note a = this
  show ?thesis
  proof (cases b)
    case (Num m)
    show ?thesis
    proof (cases "isNumeric s")
      case True
      from stored_numeral [OF assms(1) [unfolded a] True] assms(2) Num
      show ?thesis using True a by (auto simp: compareNumbers_def storedIdent_def)
    next
      case False
      with a Num show ?thesis by simp
    qed
  next
    case (Str t)
    with a assms(3) show ?thesis by (auto simp: plainIdent_def)
  qed
qed

lemma comparePreLoop_exact:
  assumes "list_all storedIdent xs" "list_all storedIdent ys"
    and "list_all plainIdent xs \<or> list_all plainIdent ys"
  shows "comparePreLoop xs ys =
     (if map identKey xs < map identKey ys then - 1
      else if map identKey xs = map identKey ys then 0 else 1)"
  using assms
proof (induction xs ys rule: comparePreLoop.induct)
  case (4 a as b bs)
  from 4(2-4) have e: "(a = b \<longleftrightarrow> identKey a = identKey b) \<and>
         compareIdentifiers a b =
           (if identKey a < identKey b then - 1 else if identKey a = identKey b then 0 else 1)"
    by (intro compareIdentifiers_exact) auto
  show ?case
  proof (cases "a = b")
    case True
    with 4 show ?thesis by auto
  next
    case False
    with e show ?thesis by auto
  qed
qed simp_all

lemma compare_exact:
  assumes "wellFormed a" "wellFormed b"
    and "list_all plainIdent (prerelease a) \<or> list_all plainIdent (prerelease b)"
  shows "compare a b =
     (if precedenceKey a < precedenceKey b then - 1
      else if precedenceKey a = precedenceKey b then 0 else 1)"
  using comparePreLoop_exact [OF assms(1,2) [unfolded wellFormed_def] assms(3)]
  unfolding compare_def compareMain_def comparePre_def compareNumbers_def precedenceKey_def
  by auto

lemma toIdent_stored: "storedIdent (toIdent s)"
  by (auto simp: toIdent_def storedIdent_def not_less)

lemma parse_wellFormed: "parse s = Some v \<Longrightarrow> wellFormed v"
  unfolding parse_def Let_def wellFormed_def
  by (auto simp: tagsOf_def list_all_iff toIdent_stored split: if_splits list.splits option.splits)

section \<open>What maxSatisfying returns\<close>

lemma compare_irrefl: "\<not> compare a a < 0"
  by (simp add: compare_refl)

lemma compare_asym: "compare a b < 0 \<Longrightarrow> \<not> compare b a < 0"
  using compare_sym [of a b] by simp

text \<open>
  The loop keeps a version that none of the versions seen so far exceeds: it replaces
  the kept one only by a greater one, and what is greater than the kept one is greater
  than all it replaced.
\<close>

lemma maxSatisfyingLoop_spec:
  assumes "\<forall>m msv. acc = Some (m, msv) \<longrightarrow> parse m = Some msv"
  shows "case maxSatisfyingLoop R inc vs acc of
           None \<Rightarrow> acc = None \<and> filter (satisfies R inc) vs = []
         | Some (s, sv) \<Rightarrow>
             parse s = Some sv \<and>
             (acc = Some (s, sv) \<or> s \<in> set (filter (satisfies R inc) vs)) \<and>
             (\<forall>u usv. u \<in> set (filter (satisfies R inc) vs) \<longrightarrow> parse u = Some usv \<longrightarrow>
                \<not> compare sv usv < 0) \<and>
             (\<forall>m msv. acc = Some (m, msv) \<longrightarrow> sv = msv \<or> compare msv sv < 0)"
  using assms
proof (induction vs arbitrary: acc)
  case Nil
  then show ?case by (auto split: option.splits)
next
  case (Cons v vs)
  let ?acc' = "case parse v of
          None \<Rightarrow> acc
        | Some sv \<Rightarrow>
            if testRange R inc sv then
              (case acc of
                 None \<Rightarrow> Some (v, sv)
               | Some (maxV, maxSV) \<Rightarrow> if compare maxSV sv = - 1 then Some (v, sv) else acc)
            else acc"
  have step: "maxSatisfyingLoop R inc (v # vs) acc = maxSatisfyingLoop R inc vs ?acc'" by simp
  have pre: "\<forall>m msv. ?acc' = Some (m, msv) \<longrightarrow> parse m = Some msv"
    using Cons.prems by (auto split: option.splits if_splits)
  note IH = Cons.IH [OF pre]
  show ?case
  proof (cases "satisfies R inc v")
    case False
    then have same: "?acc' = acc" by (auto simp: satisfies_def split: option.splits)
    from IH False show ?thesis unfolding step same by (auto split: option.splits)
  next
    case True
    then obtain sv where sv: "parse v = Some sv" "testRange R inc sv"
      by (auto simp: satisfies_def split: option.splits)
    show ?thesis
    proof (cases acc)
      case None
      with sv have acc': "?acc' = Some (v, sv)" by simp
      from IH True sv None show ?thesis unfolding step acc'
        using compare_irrefl [of sv] compare_asym [of sv]
        by (auto split: option.splits)
    next
      case (Some a)
      obtain m msv where a: "a = (m, msv)" by (cases a)
      show ?thesis
      proof (cases "compare msv sv = - 1")
        case True
        with sv Some a have acc': "?acc' = Some (v, sv)" by simp
        from True have lt: "compare msv sv < 0" by simp
        note IH' = IH [unfolded acc']
        from IH' obtain s fs where res: "maxSatisfyingLoop R inc vs (Some (v, sv)) = Some (s, fs)"
          and p: "parse s = Some fs"
          and mem: "(s, fs) = (v, sv) \<or> s \<in> set (filter (satisfies R inc) vs)"
          and ub: "\<And>u usv. u \<in> set (filter (satisfies R inc) vs) \<Longrightarrow> parse u = Some usv \<Longrightarrow>
                     \<not> compare fs usv < 0"
          and chain: "fs = sv \<or> compare sv fs < 0"
          by (auto split: option.splits)
        from chain have 1: "\<not> compare fs sv < 0"
          using compare_irrefl [of sv] compare_asym [of sv fs] by auto
        from chain lt have 2: "fs = msv \<or> compare msv fs < 0"
          using compare_trans [of msv sv fs] by auto
        from mem \<open>satisfies R inc v\<close> have 3: "s \<in> set (filter (satisfies R inc) (v # vs))" by auto
        have 4: "\<not> compare fs usv < 0"
          if "u \<in> set (filter (satisfies R inc) (v # vs))" "parse u = Some usv" for u usv
          using that ub [of u usv] 1 sv \<open>satisfies R inc v\<close> by (cases "u = v") auto
        have final: "maxSatisfyingLoop R inc (v # vs) acc = Some (s, fs)"
          by (simp only: step acc' res)
        from p 2 3 4 Some a show ?thesis unfolding final by simp
      next
        case False
        with sv Some a have acc': "?acc' = acc" by simp
        from False have nlt: "\<not> compare msv sv < 0" by (simp add: compare_neg)
        note IH' = IH [unfolded acc']
        from IH' Some a obtain s fs where res: "maxSatisfyingLoop R inc vs acc = Some (s, fs)"
          and p: "parse s = Some fs"
          and mem: "(s, fs) = (m, msv) \<or> s \<in> set (filter (satisfies R inc) vs)"
          and ub: "\<And>u usv. u \<in> set (filter (satisfies R inc) vs) \<Longrightarrow> parse u = Some usv \<Longrightarrow>
                     \<not> compare fs usv < 0"
          and chain: "fs = msv \<or> compare msv fs < 0"
          by (auto split: option.splits)
        from chain nlt have 1: "\<not> compare fs sv < 0"
          using compare_trans [of msv fs sv] by auto
        have 4: "\<not> compare fs usv < 0"
          if "u \<in> set (filter (satisfies R inc) (v # vs))" "parse u = Some usv" for u usv
          using that ub [of u usv] 1 sv \<open>satisfies R inc v\<close> by (cases "u = v") auto
        from mem have 3: "Some (m, msv) = Some (s, fs) \<or> s \<in> set (filter (satisfies R inc) (v # vs))"
          by auto
        have final: "maxSatisfyingLoop R inc (v # vs) acc = Some (s, fs)"
          by (simp only: step acc' res)
        from p chain 3 4 Some a show ?thesis unfolding final by simp
      qed
    qed
  qed
qed

lemma maxSatisfying_result:
  assumes "newRange lib r inc = Some R"
  shows "(filter (satisfies R inc) V = [] \<longrightarrow> maxSatisfying lib V r inc = None) \<and>
         (filter (satisfies R inc) V \<noteq> [] \<longrightarrow>
            (\<exists>s. maxSatisfying lib V r inc = Some s \<and> isMaximumOf (filter (satisfies R inc) V) s))"
proof -
  have "\<forall>m msv. (None :: (string \<times> SemVer) option) = Some (m, msv) \<longrightarrow> parse m = Some msv" by simp
  from maxSatisfyingLoop_spec [OF this, of R inc V]
  show ?thesis
  proof (cases "maxSatisfyingLoop R inc V None")
    case None
    with \<open>case maxSatisfyingLoop R inc V None of None \<Rightarrow> _ | Some (s, sv) \<Rightarrow> _\<close> assms
    show ?thesis by (simp add: maxSatisfying_def)
  next
    case (Some a)
    obtain s sv where a: "a = (s, sv)" by (cases a)
    from \<open>case maxSatisfyingLoop R inc V None of None \<Rightarrow> _ | Some (s, sv) \<Rightarrow> _\<close> Some a
    have p: "parse s = Some sv" and mem: "s \<in> set (filter (satisfies R inc) V)"
      and ub: "\<And>u usv. u \<in> set (filter (satisfies R inc) V) \<Longrightarrow> parse u = Some usv \<Longrightarrow>
                \<not> compare sv usv < 0"
      by auto
    have "list_all (\<lambda>u. versionLE u s) (filter (satisfies R inc) V)"
      unfolding list_all_iff
    proof
      fix u assume u: "u \<in> set (filter (satisfies R inc) V)"
      then obtain usv where usv: "parse u = Some usv"
        by (auto simp: satisfies_def split: option.splits)
      from ub [OF u usv] compare_sym [of sv usv] p usv show "versionLE u s"
        by (simp add: versionLE_def)
    qed
    with mem have "isMaximumOf (filter (satisfies R inc) V) s" by (simp add: isMaximumOf_def)
    moreover from Some a assms have "maxSatisfying lib V r inc = Some s"
      by (simp add: maxSatisfying_def)
    moreover from mem have "filter (satisfies R inc) V \<noteq> []"
      by (metis empty_iff list.set(1))
    ultimately show ?thesis by simp
  qed
qed

text \<open>
  Where one of two versions holds no identifier of digits as a string, the library's
  comparison is the precedence of semantic versioning.
\<close>

lemma versionLE_precedence:
  assumes "smallNumerals u \<or> smallNumerals s"
  shows "versionLE u s \<longleftrightarrow> precedenceLE u s"
proof (cases "parse u")
  case None
  then show ?thesis by (simp add: versionLE_def precedenceLE_def)
next
  case (Some x)
  note x = this
  show ?thesis
  proof (cases "parse s")
    case None
    with x show ?thesis by (simp add: versionLE_def precedenceLE_def)
  next
    case (Some y)
    from assms x Some have "list_all plainIdent (prerelease x) \<or> list_all plainIdent (prerelease y)"
      by (simp add: smallNumerals_def)
    from compare_exact [OF parse_wellFormed [OF x] parse_wellFormed [OF Some] this] x Some
    show ?thesis by (auto simp: versionLE_def precedenceLE_def split: if_splits)
  qed
qed

text \<open>
  In the order of semantic versioning the maximum found is at least every candidate,
  except where both it and the candidate hold an identifier of digits as a string.
\<close>

lemma maximum_precedence:
  assumes "isMaximumOf candidates s" and "u \<in> set candidates"
    and "smallNumerals u \<or> smallNumerals s"
  shows "precedenceLE u s"
proof -
  from assms(1,2) have "versionLE u s" by (simp add: isMaximumOf_def list_all_iff)
  with versionLE_precedence [OF assms(3)] show ?thesis by simp
qed

lemma newRange_any: "newRange lib ''>=0'' inc = Some [[ANY]]"
  by (simp add: newRange_def)

lemma satisfies_any:
  "satisfies [[ANY]] inc v \<longleftrightarrow>
     (case parse v of Some sv \<Rightarrow> inc \<or> prerelease sv = [] | None \<Rightarrow> False)"
  by (auto simp: satisfies_def testRange_def testSet_def split: option.splits)

lemma filter_any: "filter (satisfies [[ANY]] inc) V = anyVersion inc V"
  by (simp add: anyVersion_def satisfies_any cong: filter_cong)

text \<open>The latest version overall, as the resolution computes it.\<close>

lemma versionLatest_result:
  "(anyVersion inc V = [] \<longrightarrow> maxSatisfying lib V ''>=0'' inc = None) \<and>
   (anyVersion inc V \<noteq> [] \<longrightarrow>
      (\<exists>s. maxSatisfying lib V ''>=0'' inc = Some s \<and> isMaximumOf (anyVersion inc V) s))"
  using maxSatisfying_result [OF newRange_any, of inc V lib] by (simp add: filter_any)

lemma prerelease_of_parse:
  "parse s = Some b \<Longrightarrow> (prerelease_of s \<noteq> None) = (prerelease b \<noteq> [])"
  by (simp add: prerelease_of_def)

text \<open>
  C5, as amended. For a declared range whose baseline parses, with the protection against
  major updates disabled, the suggestion is null iff no published version is a candidate
  of the range "any version at or above 0", where versions with a prerelease tag are
  candidates iff the baseline has one. Otherwise the suggestion is a candidate that no
  candidate exceeds in the library's comparison, and in the precedence of semantic
  versioning it is at least every candidate, those apart where the candidate and the
  suggestion both have a prerelease identifier of digits that denotes \<open>2\<^sup>5\<^sup>3 - 1\<close> or
  more.
\<close>

theorem unprotected_suggests_latest:
  assumes "parse (versionClear version) = Some baseline"
  shows
    "(anyVersion (prerelease baseline \<noteq> []) packageVersions = [] \<longrightarrow>
        getPackageLatestVersion lib False packageVersions version = Return None) \<and>
     (anyVersion (prerelease baseline \<noteq> []) packageVersions \<noteq> [] \<longrightarrow>
        (\<exists>s. getPackageLatestVersion lib False packageVersions version = Return (Some s) \<and>
             isMaximumOf (anyVersion (prerelease baseline \<noteq> []) packageVersions) s \<and>
             (\<forall>u \<in> set (anyVersion (prerelease baseline \<noteq> []) packageVersions).
                 smallNumerals u \<or> smallNumerals s \<longrightarrow> precedenceLE u s)))"
proof -
  let ?C = "anyVersion (prerelease baseline \<noteq> []) packageVersions"
  have res: "getPackageLatestVersion lib False packageVersions version =
        Return (maxSatisfying lib packageVersions ''>=0'' (prerelease baseline \<noteq> []))"
    unfolding getPackageLatestVersion_def Let_def prerelease_of_parse [OF assms] by simp
  have 1: "?C = [] \<longrightarrow> getPackageLatestVersion lib False packageVersions version = Return None"
    using versionLatest_result [of "prerelease baseline \<noteq> []" packageVersions lib] res by simp
  have 2: "\<exists>s. getPackageLatestVersion lib False packageVersions version = Return (Some s) \<and>
             isMaximumOf ?C s \<and>
             (\<forall>u \<in> set ?C. smallNumerals u \<or> smallNumerals s \<longrightarrow> precedenceLE u s)"
    if "?C \<noteq> []"
  proof -
    from that versionLatest_result [of "prerelease baseline \<noteq> []" packageVersions lib]
    obtain s where s: "maxSatisfying lib packageVersions ''>=0'' (prerelease baseline \<noteq> []) = Some s"
      "isMaximumOf ?C s" by blast
    from s(2) have "\<forall>u \<in> set ?C. smallNumerals u \<or> smallNumerals s \<longrightarrow> precedenceLE u s"
      using maximum_precedence [of ?C s] by blast
    with s res show ?thesis by simp
  qed
  from 1 2 show ?thesis by blast
qed

theorem unprotected_suggests_latest_witness:
  "getPackageLatestVersion unreached False [''1.0.0'', ''1.0.1'', ''2.0.0'', ''3.0.0-rc.1''] ''^1.0.0'' =
     Return (Some ''2.0.0'') \<and>
   getPackageLatestVersion unreached False [''1.0.0'', ''1.0.1'', ''2.0.0'', ''3.0.0-rc.1''] ''^1.0.0-beta'' =
     Return (Some ''3.0.0-rc.1'') \<and>
   isMaximumOf (anyVersion False [''1.0.0'', ''1.0.1'', ''2.0.0'', ''3.0.0-rc.1'']) ''2.0.0'' \<and>
   precedenceLE ''1.0.1'' ''2.0.0'' \<and>
   getPackageLatestVersion unreached False [''next''] ''^1.0.0'' = Return None"
proof -
  let ?V = "[''1.0.0'', ''1.0.1'', ''2.0.0'', ''3.0.0-rc.1'']"
  have b: "parse (versionClear ''^1.0.0'') =
      Some \<lparr>major = 1, minor = 0, patch = 0, prerelease = [], build = []\<rparr>"
    by code_simp
  have r: "getPackageLatestVersion unreached False ?V ''^1.0.0'' = Return (Some ''2.0.0'')"
    by code_simp
  have r2: "getPackageLatestVersion unreached False ?V ''^1.0.0-beta'' = Return (Some ''3.0.0-rc.1'')"
    by code_simp
  have r3: "getPackageLatestVersion unreached False [''next''] ''^1.0.0'' = Return None"
    by code_simp
  have ne: "anyVersion False ?V \<noteq> []" by code_simp
  have u: "''1.0.1'' \<in> set (anyVersion False ?V)" "smallNumerals ''1.0.1''" by code_simp+
  from unprotected_suggests_latest [OF b, of ?V unreached] ne r u
  have "isMaximumOf (anyVersion False ?V) ''2.0.0'' \<and> precedenceLE ''1.0.1'' ''2.0.0''" by auto
  with r r2 r3 show ?thesis by simp
qed

text \<open>
  The claim as stated fails where two published versions have prerelease identifiers of
  digits that denote different numbers and the same double. The baseline
  \<^verbatim>\<open>1.0.0-0\<close> is a prerelease, so versions with a tag are candidates. Of the published
  versions \<^verbatim>\<open>1.0.0-9007199254740992.2\<close> and \<^verbatim>\<open>1.0.0-9007199254740993.1\<close> the second
  is the greater, since 9007199254740992 < 9007199254740993; the library finds the two
  identifiers equal and keeps the first version, which is returned.
\<close>

theorem unprotected_suggests_latest_counterexample:
  "parse (versionClear ''^1.0.0-0'') =
     Some \<lparr>major = 1, minor = 0, patch = 0, prerelease = [Num 0], build = []\<rparr> \<and>
   getPackageLatestVersion unreached False
     [''1.0.0-9007199254740992.2'', ''1.0.0-9007199254740993.1''] ''^1.0.0-0'' =
     Return (Some ''1.0.0-9007199254740992.2'') \<and>
   anyVersion True [''1.0.0-9007199254740992.2'', ''1.0.0-9007199254740993.1''] =
     [''1.0.0-9007199254740992.2'', ''1.0.0-9007199254740993.1''] \<and>
   precedenceLE ''1.0.0-9007199254740992.2'' ''1.0.0-9007199254740993.1'' \<and>
   \<not> precedenceLE ''1.0.0-9007199254740993.1'' ''1.0.0-9007199254740992.2''"
  by code_simp

section \<open>The shape of a baseline that parses\<close>

lemma digit_not_space: "isDigit c \<Longrightarrow> \<not> isWhiteSpace c"
  by (auto simp: isDigit_def isWhiteSpace_def)

lemma versionClear_shape:
  "versionClear v = [] \<or> isDigit (hd (versionClear v)) \<and> \<not> isWhiteSpace (last (versionClear v))"
proof -
  let ?d = "dropWhile (\<lambda>c. \<not> isDigit c) v"
  show ?thesis
  proof (cases ?d)
    case Nil
    have "versionClear v = []" unfolding versionClear_def Nil by (simp add: trimEnd_def)
    then show ?thesis by (rule disjI1)
  next
    case (Cons c cs)
    then have c: "isDigit c" by (metis hd_dropWhile list.sel(1) list.distinct(1))
    let ?r = "dropWhile isWhiteSpace (rev cs @ [c])"
    have "?r \<noteq> []" using c by (simp add: digit_not_space)
    have last: "last ?r = c"
      by (metis \<open>?r \<noteq> []\<close> last_snoc takeWhile_dropWhile_id last_appendR)
    have hd: "\<not> isWhiteSpace (hd ?r)" using \<open>?r \<noteq> []\<close> by (rule hd_dropWhile)
    have vc: "versionClear v = rev ?r" unfolding versionClear_def Cons by (simp add: trimEnd_def)
    from \<open>?r \<noteq> []\<close> last hd c show ?thesis
      by (simp add: vc hd_rev last_rev)
  qed
qed

lemma trim_clean:
  assumes "s \<noteq> []" "isDigit (hd s)" "\<not> isWhiteSpace (last s)"
  shows "trim s = s"
proof -
  from assms have "dropWhile isWhiteSpace s = s"
    by (cases s) (auto simp: digit_not_space)
  moreover from assms have "trimEnd s = s"
    by (cases s rule: rev_cases) (auto simp: trimEnd_def)
  ultimately show ?thesis by (simp add: trim_def)
qed

lemma digit_not_v: "isDigit c \<Longrightarrow> c \<noteq> CHR ''v''"
  by (auto simp: isDigit_def)

text \<open>What \<open>parse\<close> has checked when it succeeds on a text that begins with a digit.\<close>

lemma parse_clean:
  assumes "s \<noteq> []" "isDigit (hd s)" "\<not> isWhiteSpace (last s)" "parse s = Some b"
  shows "length s \<le> MAX_LENGTH \<and> validTags s \<and>
         (\<exists>M m p. split CHR ''.'' (mainPart s) = [M, m, p] \<and>
            isNumericIdentifier M \<and> isNumericIdentifier m \<and> isNumericIdentifier p \<and>
            toNumber M \<le> MAX_SAFE_INTEGER \<and> toNumber m \<le> MAX_SAFE_INTEGER \<and>
            toNumber p \<le> MAX_SAFE_INTEGER \<and>
            b = \<lparr>major = toNumber M, minor = toNumber m, patch = toNumber p,
                  prerelease = fst (tagsOf s), build = snd (tagsOf s)\<rparr>)"
proof -
  from assms(1,2) obtain c r where s: "s = c # r" "c \<noteq> CHR ''v''"
    by (cases s) (auto simp: digit_not_v)
  have t: "trim s = s" using assms(1-3) by (rule trim_clean)
  from assms(4) show ?thesis
    unfolding parse_def t Let_def using s
    by (auto split: if_splits list.splits)
qed


section \<open>The characters of a version\<close>

lemma split_chars:
  "\<forall>w \<in> set (split sep s). list_all P w \<Longrightarrow> \<forall>c \<in> set s. P c \<or> c = sep"
  by (induction s) (auto split: if_splits list.splits)

lemma identChar_plain: "isIdentChar c \<Longrightarrow> \<not> isWhiteSpace c \<and> c \<noteq> CHR ''|''"
  by (auto simp: isIdentChar_def isDigit_def isLetter_def isWhiteSpace_def)

lemma version_chars:
  assumes main: "split CHR ''.'' (mainPart s) = [M, m, p]"
    and num: "isNumericIdentifier M" "isNumericIdentifier m" "isNumericIdentifier p"
    and tags: "validTags s"
  shows "\<forall>c \<in> set s. isIdentChar c \<or> c = CHR ''.'' \<or> c = CHR ''+''"
proof -
  let ?Q = "\<lambda>c. c \<noteq> CHR ''-'' \<and> c \<noteq> CHR ''+''"
  let ?B = "\<lambda>c. c \<noteq> CHR ''+''"
  let ?ok = "\<lambda>c. isIdentChar c \<or> c = CHR ''.'' \<or> c = CHR ''+''"
  have id: "\<forall>c \<in> set w. isIdentChar c \<or> c = CHR ''.''"
    if "list_all isPrereleaseIdentifier (split CHR ''.'' w) \<or> list_all isBuildIdentifier (split CHR ''.'' w)"
    for w
  proof -
    from that have "\<forall>u \<in> set (split CHR ''.'' w). list_all isIdentChar u"
      by (auto simp: list_all_iff isPrereleaseIdentifier_def isBuildIdentifier_def)
    then show ?thesis by (rule split_chars)
  qed
  have "\<forall>u \<in> set (split CHR ''.'' (mainPart s)). list_all isIdentChar u"
    unfolding main using num by (simp add: isNumericIdentifier_def isIdentChar_def list_all_iff)
  then have "\<forall>c \<in> set (mainPart s). isIdentChar c \<or> c = CHR ''.''"
    by (rule split_chars)
  then have mainok: "\<forall>c \<in> set (mainPart s). ?ok c" by blast
  have noplus: "\<And>c. c \<in> set (mainPart s) \<Longrightarrow> ?B c"
    unfolding mainPart_def by (drule set_takeWhileD) simp
  have sets: "set s = set (mainPart s) \<union> set (dropWhile ?Q s)"
    unfolding mainPart_def by (metis set_append takeWhile_dropWhile_id)
  show ?thesis
  proof (cases "dropWhile ?Q s")
    case Nil
    with sets have "set s = set (mainPart s)" by simp
    with mainok show ?thesis by simp
  next
    case (Cons c0 r)
    have "\<not> ?Q (hd (dropWhile ?Q s))" by (rule hd_dropWhile) (simp add: Cons)
    then have c0: "c0 = CHR ''-'' \<or> c0 = CHR ''+''" by (auto simp: Cons)
    have "takeWhile ?Q s @ dropWhile ?Q s = s" by (rule takeWhile_dropWhile_id)
    then have eq: "mainPart s @ c0 # r = s" by (simp add: mainPart_def Cons)
    have "dropWhile ?B (mainPart s @ c0 # r) = dropWhile ?B (c0 # r)"
      by (rule dropWhile_append2) (rule noplus)
    then have dw: "dropWhile ?B s = dropWhile ?B (c0 # r)" by (simp only: eq)
    have rest: "\<forall>c \<in> set r. ?ok c"
    proof (cases "c0 = CHR ''+''")
      case True
      with dw have "buildPart s = Some r" by (simp add: buildPart_def)
      with tags have "list_all isBuildIdentifier (split CHR ''.'' r)" by (simp add: validTags_def)
      with id [of r] show ?thesis by blast
    next
      case False
      with c0 have minus: "c0 = CHR ''-''" by simp
      with Cons have pp: "prereleasePart s = Some (takeWhile ?B r)"
        by (simp add: prereleasePart_def)
      with tags have "list_all isPrereleaseIdentifier (split CHR ''.'' (takeWhile ?B r))"
        by (simp add: validTags_def)
      with id [of "takeWhile ?B r"] have pre: "\<forall>c \<in> set (takeWhile ?B r). ?ok c" by blast
      from dw minus have bp: "dropWhile ?B s = dropWhile ?B r" by simp
      have bld: "\<forall>c \<in> set (dropWhile ?B r). ?ok c"
      proof (cases "dropWhile ?B r")
        case Nil
        show ?thesis unfolding Nil by simp
      next
        case (Cons c1 bb)
        from bp Cons have "buildPart s = Some bb" by (simp add: buildPart_def)
        with tags have "list_all isBuildIdentifier (split CHR ''.'' bb)" by (simp add: validTags_def)
        with id [of bb] have "\<forall>c \<in> set bb. ?ok c" by blast
        moreover have "\<not> ?B (hd (dropWhile ?B r))" by (rule hd_dropWhile) (simp add: Cons)
        then have "c1 = CHR ''+''" by (simp add: Cons)
        ultimately show ?thesis by (simp add: Cons)
      qed
      have "set r = set (takeWhile ?B r) \<union> set (dropWhile ?B r)"
        by (metis set_append takeWhile_dropWhile_id)
      with pre bld show ?thesis by blast
    qed
    have "?ok c0" using c0 by (auto simp: isIdentChar_def)
    moreover from sets Cons have "set s = set (mainPart s) \<union> insert c0 (set r)" by simp
    ultimately show ?thesis using mainok rest by blast
  qed
qed

lemma version_plain:
  assumes "split CHR ''.'' (mainPart s) = [M, m, p]"
    and "isNumericIdentifier M" "isNumericIdentifier m" "isNumericIdentifier p"
    and "validTags s"
  shows "\<not> list_ex (\<lambda>c. isWhiteSpace c \<or> c = CHR ''|'') s"
proof -
  have "\<not> isWhiteSpace c \<and> c \<noteq> CHR ''|''" if "c \<in> set s" for c
    using version_chars [OF assms] that identChar_plain [of c]
    by (auto simp: isWhiteSpace_def)
  then show ?thesis by (auto simp: list_ex_iff)
qed


section \<open>The caret range of a version\<close>

lemma xIdentifier_numeric:
  "isNumericIdentifier M \<Longrightarrow> xIdentifier M = Some (Some (toNumber M))"
  by (auto simp: xIdentifier_def isNumericIdentifier_def isDigit_def)

lemma replaceCaret_full:
  assumes "split CHR ''.'' (mainPart s) = [M, m, p]"
    and "isNumericIdentifier M" "isNumericIdentifier m" "isNumericIdentifier p"
    and "validTags s"
  shows "replaceCaret inc s =
     Some (mkVersion (toNumber M) (toNumber m) (toNumber p)
             (if fst (tagsOf s) \<noteq> [] then fst (tagsOf s)
              else if toNumber M = 0 then (if inc then [Num 0] else []) else []),
           caretUpper (toNumber M) (toNumber m) (toNumber p))"
  unfolding replaceCaret_def Let_def assms(1)
  using assms(2-5) by (simp add: xIdentifier_numeric caretUpper_def)

lemma replaceGTE0_Lt [simp]: "replaceGTE0 inc (Comparator Lt u) = Comparator Lt u"
  by (simp add: replaceGTE0_def)

lemma replaceGTE0_Ge: "replaceGTE0 inc (Comparator Ge l) = ANY \<or> replaceGTE0 inc (Comparator Ge l) = Comparator Ge l"
  by (simp add: replaceGTE0_def)

lemma newRange_caret:
  assumes "s \<noteq> []" "isDigit (hd s)"
    and "split CHR ''.'' (mainPart s) = [M, m, p]"
    and "isNumericIdentifier M" "isNumericIdentifier m" "isNumericIdentifier p"
    and "validTags s"
    and "lower = mkVersion (toNumber M) (toNumber m) (toNumber p)
             (if fst (tagsOf s) \<noteq> [] then fst (tagsOf s)
              else if toNumber M = 0 then (if inc then [Num 0] else []) else [])"
    and "upper = caretUpper (toNumber M) (toNumber m) (toNumber p)"
  shows "newRange lib (CHR ''^'' # s) inc =
     (if constructible s lower \<and> constructible s upper
      then Some [[replaceGTE0 inc (Comparator Ge lower), Comparator Lt upper]]
      else None)"
proof -
  have plain: "\<not> list_ex (\<lambda>c. isWhiteSpace c \<or> c = CHR ''|'') s"
    using assms(3-7) by (rule version_plain)
  have rc: "replaceCaret inc s = Some (lower, upper)"
    unfolding assms(8,9) using assms(3-7) by (rule replaceCaret_full)
  show ?thesis
    unfolding newRange_def using assms(1,2) plain by (simp add: rc)
qed

text \<open>
  A version with a prerelease tag is never below the version \<open>M.m.p-0\<close> on its own
  \<open>M.m.p\<close>: the tag \<open>0\<close> is the least.
\<close>

lemma zero_tag_least:
  assumes "prerelease x \<noteq> []" "prerelease u = [Num 0]"
    and "major u = major x" "minor u = minor x" "patch u = patch x"
  shows "\<not> compare x u < 0"
proof -
  from assms(1) obtain a as where x: "prerelease x = a # as" by (cases "prerelease x") auto
  have 1: "0 \<le> compareIdentifiers a (Num 0)" by (cases a) (auto simp: compareNumbers_def)
  have 2: "0 \<le> comparePreLoop as []" by (cases as) auto
  from 1 2 have "0 \<le> comparePreLoop (a # as) [Num 0]" by simp
  then show ?thesis
    using assms(2-5) x by (simp add: compare_def compareMain_def compareNumbers_def comparePre_def)
qed

text \<open>
  So a caret range whose lower end has no prerelease tag admits, without
  \<^verbatim>\<open>includePrerelease\<close>, only versions without one.
\<close>

lemma caret_release_only:
  assumes "prerelease l = []" "prerelease u = [Num 0]"
    and "testRange [[replaceGTE0 False (Comparator Ge l), Comparator Lt u]] False x"
  shows "prerelease x = []"
proof (rule ccontr)
  assume pre: "prerelease x \<noteq> []"
  let ?c = "replaceGTE0 False (Comparator Ge l)"
  from assms(3) pre have t: "test (Comparator Lt u) x"
    and a: "allowsPrereleaseOf x ?c \<or> allowsPrereleaseOf x (Comparator Lt u)"
    by (auto simp: testRange_def testSet_def split: if_splits)
  from replaceGTE0_Ge [of False l] assms(1) have "\<not> allowsPrereleaseOf x ?c" by auto
  with a have same: "major u = major x" "minor u = minor x" "patch u = patch x" by auto
  from zero_tag_least [OF pre assms(2) same] t show False by simp
qed

section \<open>Properties of the update resolution\<close>

lemma parse_Nil: "parse [] = None"
  by (simp add: parse_def trim_def trimEnd_def mainPart_def Let_def)

lemma caretUpper_prerelease: "prerelease (caretUpper M m p) = [Num 0]"
  by (simp add: caretUpper_def mkVersion_def)

lemma baseline_shape:
  assumes "parse (versionClear version) = Some baseline"
  shows "versionClear version \<noteq> [] \<and> isDigit (hd (versionClear version)) \<and>
         \<not> isWhiteSpace (last (versionClear version))"
  using assms versionClear_shape [of version] by (auto simp: parse_Nil)

lemma latest_is_release:
  assumes "maxSatisfying lib V ''>=0'' False = Some s"
  shows "s \<in> set V \<and> (\<exists>x. parse s = Some x \<and> prerelease x = [])"
proof -
  from versionLatest_result [of False V lib] assms
  have "isMaximumOf (anyVersion False V) s" by (cases "anyVersion False V = []") auto
  then have "s \<in> set (anyVersion False V)" by (simp add: isMaximumOf_def)
  then show ?thesis by (auto simp: anyVersion_def split: option.splits)
qed

lemma split_nonempty: "split sep s \<noteq> []"
  by (induction s) (auto split: list.splits)

lemma replaceCaret_untagged:
  assumes "replaceCaret False s = Some (l, u)" and "fst (tagsOf s) = []"
  shows "prerelease l = [] \<and> prerelease u = [Num 0]"
  using assms unfolding replaceCaret_def Let_def
  by (auto simp: mkVersion_def split: list.splits option.splits if_splits)

lemma untagged_not_prerelease:
  assumes "prereleasePart (versionClear version) = None"
  shows "prerelease_of (versionClear version) = None"
proof (cases "parse (versionClear version)")
  case None
  then show ?thesis by (simp add: prerelease_of_def)
next
  case (Some b)
  let ?vc = "versionClear version"
  from baseline_shape [OF Some] have sh: "?vc \<noteq> []" "isDigit (hd ?vc)" "\<not> isWhiteSpace (last ?vc)"
    by simp_all
  from parse_clean [OF sh Some] have "prerelease b = fst (tagsOf ?vc)" by auto
  with assms have "prerelease b = []" by (simp add: tagsOf_def)
  with Some show ?thesis by (simp add: prerelease_of_def)
qed

text \<open>
  Without \<^verbatim>\<open>includePrerelease\<close>, a range none of whose comparators has a prerelease
  tag of its own admits only versions without one.
\<close>

lemma untagged_range_admits_release:
  assumes "untaggedRange R" and "testRange R False x"
  shows "prerelease x = []"
proof (rule ccontr)
  assume pre: "prerelease x \<noteq> []"
  from assms(2) obtain cs where cs: "cs \<in> set R" "testSet cs x False"
    by (auto simp: testRange_def list_ex_iff)
  from cs(2) pre obtain c where c: "c \<in> set cs" "allowsPrereleaseOf x c" "test c x"
    by (auto simp: testSet_def list_ex_iff list_all_iff split: if_splits)
  from c(2) obtain operator a where a: "c = Comparator operator a" "prerelease a \<noteq> []"
    "major a = major x" "minor a = minor x" "patch a = patch x"
    by (cases c) auto
  from assms(1) cs(1) c(1) have "untagged c" by (auto simp: untaggedRange_def list_all_iff)
  with a have lt: "operator = Lt" "prerelease a = [Num 0]" by auto
  from zero_tag_least [OF pre lt(2) a(3-5)] c(3) a(1) lt(1) show False by simp
qed

text \<open>
  The caret range of a single comparator without a prerelease tag (a version such as
  1.2.3, or a partial version such as 1 or 1.x) is such a range, where it is written
  out here.
\<close>

lemma untagged_baseline_range:
  assumes tag: "prereleasePart (versionClear version) = None"
    and plain: "\<not> list_ex (\<lambda>c. isWhiteSpace c \<or> c = CHR ''|'') (versionClear version)"
  shows "newRange lib (CHR ''^'' # versionClear version) False =
           otherRange lib (CHR ''^'' # versionClear version) False \<or>
         (case newRange lib (CHR ''^'' # versionClear version) False of
            None \<Rightarrow> True | Some R \<Rightarrow> untaggedRange R)"
proof (cases "replaceCaret False (versionClear version)")
  case None
  let ?vc = "versionClear version"
  from versionClear_shape [of version] have guard: "?vc = [] \<or> isDigit (hd ?vc)" by blast
  with plain None have "newRange lib (CHR ''^'' # ?vc) False = otherRange lib (CHR ''^'' # ?vc) False"
    by (auto simp: newRange_def)
  then show ?thesis by (rule disjI1)
next
  case (Some lu)
  let ?vc = "versionClear version"
  obtain l u where rc: "replaceCaret False ?vc = Some (l, u)" using Some by (cases lu) simp
  from tag have tags: "fst (tagsOf ?vc) = []" by (simp add: tagsOf_def)
  from versionClear_shape [of version] have guard: "?vc = [] \<or> isDigit (hd ?vc)" by blast
  from replaceCaret_untagged [OF rc tags] have pl: "prerelease l = []" and pu: "prerelease u = [Num 0]"
    by simp_all
  from replaceGTE0_Ge [of False l] pl have gl: "untagged (replaceGTE0 False (Comparator Ge l))" by auto
  have "case newRange lib (CHR ''^'' # ?vc) False of None \<Rightarrow> True | Some R \<Rightarrow> untaggedRange R"
    using guard plain rc gl pu by (auto simp: newRange_def untaggedRange_def)
  then show ?thesis by (rule disjI2)
qed

text \<open>A version without a prerelease tag is such a baseline.\<close>

lemma release_baseline_untagged:
  assumes "parse (versionClear version) = Some baseline" and "prerelease baseline = []"
  shows "prereleasePart (versionClear version) = None \<and>
         \<not> list_ex (\<lambda>c. isWhiteSpace c \<or> c = CHR ''|'') (versionClear version)"
proof -
  let ?vc = "versionClear version"
  from baseline_shape [OF assms(1)] have sh: "?vc \<noteq> []" "isDigit (hd ?vc)" "\<not> isWhiteSpace (last ?vc)"
    by simp_all
  from parse_clean [OF sh assms(1)] obtain M m p where
    parts: "split CHR ''.'' (mainPart ?vc) = [M, m, p]"
      "isNumericIdentifier M" "isNumericIdentifier m" "isNumericIdentifier p" "validTags ?vc"
    and bv: "prerelease baseline = fst (tagsOf ?vc)"
    by auto
  from bv assms(2) have "prereleasePart ?vc = None"
    by (cases "prereleasePart ?vc") (auto simp: tagsOf_def split_nonempty)
  with version_plain [OF parts] show ?thesis by simp
qed

text \<open>
  The caret range of a baseline text without a hyphen is a range without tags as well,
  as far as it is of a shape written out here: a single comparator or a set of
  comparators.
\<close>

lemma split_subset: "\<forall>w \<in> set (split sep s). set w \<subseteq> set s"
proof (induction s)
  case Nil
  show ?case by simp
next
  case (Cons c cs)
  show ?case
  proof (cases "c = sep")
    case True
    with Cons show ?thesis by auto
  next
    case False
    show ?thesis
    proof (cases "split sep cs")
      case Nil
      with False show ?thesis by simp
    next
      case (Cons w ws)
      with False \<open>\<forall>w \<in> set (split sep cs). set w \<subseteq> set cs\<close> show ?thesis by auto
    qed
  qed
qed

lemma those_map_Some:
  "those (map f xs) = Some ys \<Longrightarrow> y \<in> set ys \<Longrightarrow> \<exists>x \<in> set xs. f x = Some y"
  by (induction xs arbitrary: ys) (auto split: option.splits)

lemma prereleasePart_no_hyphen: "CHR ''-'' \<notin> set s \<Longrightarrow> prereleasePart s = None"
proof -
  assume h: "CHR ''-'' \<notin> set s"
  let ?P = "\<lambda>c. c \<noteq> CHR ''-'' \<and> c \<noteq> CHR ''+''"
  show ?thesis
  proof (cases "dropWhile ?P s")
    case Nil
    show ?thesis unfolding prereleasePart_def Nil by simp
  next
    case (Cons c r)
    then have "c \<in> set s" by (metis list.set_intros(1) set_dropWhileD)
    with h have "c \<noteq> CHR ''-''" by auto
    then show ?thesis unfolding prereleasePart_def Cons by simp
  qed
qed

lemma trim_subset: "set (trim s) \<subseteq> set s"
proof -
  have "set (trimEnd x) \<subseteq> set x" for x
    unfolding trimEnd_def by (auto dest: set_dropWhileD)
  moreover have "set (dropWhile isWhiteSpace s) \<subseteq> set s" by (auto dest: set_dropWhileD)
  ultimately show ?thesis unfolding trim_def by blast
qed

lemma parse_no_hyphen:
  assumes "CHR ''-'' \<notin> set v" "parse v = Some sv"
  shows "prerelease sv = []"
proof -
  let ?t = "trim v"
  let ?s = "case ?t of c # r \<Rightarrow> if c = CHR ''v'' then r else ?t | [] \<Rightarrow> ?t"
  have "set ?s \<subseteq> set ?t" by (auto split: list.splits)
  with trim_subset [of v] assms(1) have "CHR ''-'' \<notin> set ?s" by blast
  then have "prereleasePart ?s = None" by (rule prereleasePart_no_hyphen)
  then have "fst (tagsOf ?s) = []" by (simp add: tagsOf_def)
  with assms(2) show ?thesis
    unfolding parse_def Let_def by (auto split: if_splits list.splits)
qed

lemma operatorOf_subset: "operatorOf t = (operator, v) \<Longrightarrow> set v \<subseteq> set t"
  by (auto simp: operatorOf_def split: list.splits if_splits)

lemma primitiveComparator_untagged:
  assumes "CHR ''-'' \<notin> set t" "primitiveComparator t = Some c"
  shows "untagged c"
proof -
  obtain operator v where o: "operatorOf t = (operator, v)" by (cases "operatorOf t")
  with assms(2) obtain sv where sv: "parse v = Some sv" "c = Comparator operator sv"
    by (auto simp: primitiveComparator_def split: if_splits)
  from operatorOf_subset [OF o] assms(1) have "CHR ''-'' \<notin> set v" by blast
  from parse_no_hyphen [OF this sv(1)] sv(2) show ?thesis by simp
qed

lemma replaceGTE0_untagged: "untagged c \<Longrightarrow> untagged (replaceGTE0 inc c)"
  by (simp add: replaceGTE0_def)

lemma comparatorSet_untagged:
  assumes h: "CHR ''-'' \<notin> set s" and cs: "comparatorSet False s = Some cs"
  shows "list_all untagged cs"
proof -
  from cs obtain first rest lower upper others where
    sp: "split CHR '' '' s = first # rest"
    and rc: "replaceCaret False first = Some (lower, upper)"
    and th: "those (map primitiveComparator rest) = Some others"
    and eq: "cs = map (replaceGTE0 False) (Comparator Ge lower # Comparator Lt upper # others)"
    unfolding comparatorSet_def
    by (auto split: list.splits if_splits option.splits prod.splits)
  have tok: "CHR ''-'' \<notin> set w" if "w \<in> set (first # rest)" for w
    using split_subset [of "CHR '' ''" s] that h sp by auto
  then have "prereleasePart first = None" by (simp add: prereleasePart_no_hyphen)
  then have "fst (tagsOf first) = []" by (simp add: tagsOf_def)
  from replaceCaret_untagged [OF rc this] have lu: "untagged (Comparator Ge lower)" "untagged (Comparator Lt upper)"
    by simp_all
  have "untagged c" if "c \<in> set others" for c
  proof -
    from those_map_Some [OF th that] obtain t where t: "t \<in> set rest" "primitiveComparator t = Some c"
      by blast
    from tok [of t] t(1) have "CHR ''-'' \<notin> set t" by simp
    from primitiveComparator_untagged [OF this t(2)] show ?thesis .
  qed
  with lu show ?thesis unfolding eq by (auto simp: list_all_iff replaceGTE0_untagged)
qed

lemma hyphen_free_range:
  assumes "CHR ''-'' \<notin> set (versionClear version)"
  shows "newRange lib (CHR ''^'' # versionClear version) False =
           otherRange lib (CHR ''^'' # versionClear version) False \<or>
         (case newRange lib (CHR ''^'' # versionClear version) False of
            None \<Rightarrow> True | Some R \<Rightarrow> untaggedRange R)"
proof -
  let ?vc = "versionClear version"
  show ?thesis
  proof (cases "(?vc = [] \<or> isDigit (hd ?vc)) \<and> \<not> list_ex (\<lambda>c. isWhiteSpace c \<or> c = CHR ''|'') ?vc")
    case True
    from prereleasePart_no_hyphen [OF assms] True untagged_baseline_range [of version lib]
    show ?thesis by blast
  next
    case False
    show ?thesis
    proof (cases "comparatorSet False ?vc")
      case None
      with False have "newRange lib (CHR ''^'' # ?vc) False = otherRange lib (CHR ''^'' # ?vc) False"
        by (auto simp: newRange_def)
      then show ?thesis by simp
    next
      case (Some cs)
      with False have "newRange lib (CHR ''^'' # ?vc) False = Some [cs]"
        by (auto simp: newRange_def)
      with comparatorSet_untagged [OF assms Some] show ?thesis by (simp add: untaggedRange_def)
    qed
  qed
qed

text \<open>
  C3, as amended. Let the baseline of the declared range be no prerelease version, as the
  resolution tests it, and let the caret range that the library builds from the
  baseline have no comparator with a prerelease tag of its own (the only tag being the
  \<^verbatim>\<open>-0\<close> of an exclusive upper end). Then for every list of published versions, with
  the protection enabled or not, the resolution returns null or a published version
  without a prerelease tag. Among the ranges written out here this covers every
  baseline that is one comparator without a tag (lemma \<open>untagged_baseline_range\<close>)
  and every set of comparators without a hyphen (lemma \<open>hyphen_free_range\<close>).
\<close>

theorem untagged_range_suggests_release:
  assumes "prerelease_of (versionClear version) = None"
    and "case newRange lib (''^'' @ versionClear version) False of
           None \<Rightarrow> True | Some R \<Rightarrow> untaggedRange R"
  shows "\<exists>r. getPackageLatestVersion lib hasMajorUpdateProtection packageVersions version = Return r \<and>
             (\<forall>s. r = Some s \<longrightarrow>
                s \<in> set packageVersions \<and> (\<exists>x. parse s = Some x \<and> prerelease x = []))"
proof -
  let ?vc = "versionClear version"
  let ?L = "maxSatisfying lib packageVersions ''>=0'' False"
  let ?S = "maxSatisfying lib packageVersions (''^'' @ ?vc) False"
  let ?good = "\<lambda>r. \<forall>s. r = Some s \<longrightarrow>
                s \<in> set packageVersions \<and> (\<exists>x. parse s = Some x \<and> prerelease x = [])"
  have isPre: "(prerelease_of ?vc \<noteq> None) = False"
    using assms(1) by simp
  have L: "?good ?L" using latest_is_release [of lib packageVersions] by blast
  have S: "?good ?S"
  proof (intro allI impI)
    fix s assume m: "?S = Some s"
    then obtain R where R: "newRange lib (''^'' @ ?vc) False = Some R"
      by (auto simp: maxSatisfying_def split: option.splits)
    with assms(2) have u: "untaggedRange R" by simp
    from maxSatisfying_result [OF R, of packageVersions] m
    have "isMaximumOf (filter (satisfies R False) packageVersions) s"
      by (cases "filter (satisfies R False) packageVersions = []") auto
    then have "s \<in> set packageVersions" "satisfies R False s" by (auto simp: isMaximumOf_def)
    then obtain x where x: "parse s = Some x" "testRange R False x"
      by (auto simp: satisfies_def split: option.splits)
    from untagged_range_admits_release [OF u x(2)] x(1) \<open>s \<in> set packageVersions\<close>
    show "s \<in> set packageVersions \<and> (\<exists>x. parse s = Some x \<and> prerelease x = [])" by simp
  qed
  have "getPackageLatestVersion lib hasMajorUpdateProtection packageVersions version =
        Return ?L \<or>
        getPackageLatestVersion lib hasMajorUpdateProtection packageVersions version =
        Return ?S"
    unfolding getPackageLatestVersion_def Let_def isPre by simp
  with L S show ?thesis by blast
qed

theorem untagged_range_suggests_release_witness:
  "getPackageLatestVersion unreached True
     [''0.9.0'', ''1.0.0-rc.1'', ''1.1.0'', ''1.2.0-rc.2'', ''2.0.0''] ''>=1.0.0 <2.0.0'' =
     Return (Some ''1.1.0'') \<and>
   getPackageLatestVersion unreached True [''1.0.0'', ''1.1.0-beta'', ''1.0.5'', ''2.0.0-rc.1''] ''^1.0.0'' =
     Return (Some ''1.0.5'') \<and>
   getPackageLatestVersion unreached True [''1.0.0'', ''1.1.0-beta'', ''1.0.5'', ''2.0.0-rc.1''] ''1'' =
     Return (Some ''1.0.5'') \<and>
   getPackageLatestVersion unreached False [''1.0.0'', ''1.1.0-beta'', ''1.0.5'', ''2.0.0-rc.1''] ''^1.0.0'' =
     Return (Some ''1.0.5'') \<and>
   (\<exists>x. parse ''1.1.0'' = Some x \<and> prerelease x = [])"
proof -
  let ?V = "[''1.0.0'', ''1.1.0-beta'', ''1.0.5'', ''2.0.0-rc.1'']"
  let ?W = "[''0.9.0'', ''1.0.0-rc.1'', ''1.1.0'', ''1.2.0-rc.2'', ''2.0.0'']"
  have t: "prerelease_of (versionClear ''>=1.0.0 <2.0.0'') = None" by code_simp
  have p: "case newRange unreached (''^'' @ versionClear ''>=1.0.0 <2.0.0'') False of
             None \<Rightarrow> True | Some R \<Rightarrow> untaggedRange R"
    by code_simp
  have r0: "getPackageLatestVersion unreached True ?W ''>=1.0.0 <2.0.0'' = Return (Some ''1.1.0'')"
    by code_simp
  have r: "getPackageLatestVersion unreached True ?V ''^1.0.0'' = Return (Some ''1.0.5'')"
    by code_simp
  have r1: "getPackageLatestVersion unreached True ?V ''1'' = Return (Some ''1.0.5'')"
    by code_simp
  have r2: "getPackageLatestVersion unreached False ?V ''^1.0.0'' = Return (Some ''1.0.5'')"
    by code_simp
  from untagged_range_suggests_release [OF t p, of True ?W] r0
  have "\<exists>x. parse ''1.1.0'' = Some x \<and> prerelease x = []" by simp
  with r0 r r1 r2 show ?thesis by simp
qed

text \<open>
  The claim as stated fails on a set of comparators one of which has a prerelease tag.
  The baseline of \<^verbatim>\<open>>=1.0.0-rc.1 <2.0.0\<close> is the text \<^verbatim>\<open>1.0.0-rc.1 <2.0.0\<close>, which
  is no version and so no prerelease version: \<^verbatim>\<open>prerelease\<close> returns null. The range
  \<^verbatim>\<open>^1.0.0-rc.1 <2.0.0\<close> admits the prereleases of 1.0.0 from \<^verbatim>\<open>rc.1\<close> on, and with
  the protection enabled the resolution returns the published prerelease
  \<^verbatim>\<open>1.0.0-rc.2\<close>.
\<close>

theorem untagged_range_suggests_release_counterexample:
  "versionClear ''>=1.0.0-rc.1 <2.0.0'' = ''1.0.0-rc.1 <2.0.0'' \<and>
   parse ''1.0.0-rc.1 <2.0.0'' = None \<and>
   prerelease_of (versionClear ''>=1.0.0-rc.1 <2.0.0'') = None \<and>
   getPackageLatestVersion unreached True
     [''0.9.0'', ''1.0.0-rc.1'', ''1.0.0-rc.2'', ''2.0.0''] ''>=1.0.0-rc.1 <2.0.0'' =
     Return (Some ''1.0.0-rc.2'') \<and>
   parse ''1.0.0-rc.2'' =
     Some \<lparr>major = 1, minor = 0, patch = 0, prerelease = [Str ''rc'', Num 2], build = []\<rparr>"
  by code_simp

section \<open>Printing a release and reading it back\<close>

lemma digit_char: "n < 10 \<Longrightarrow> isDigit (char_of (48 + n)) \<and> digitValue (char_of (48 + n)) = n"
  by (simp add: isDigit_def digitValue_def)

lemma showNat_digits: "list_all isDigit (showNat n)"
proof (induction n rule: showNat.induct)
  case (1 n)
  show ?case
  proof (cases "n < 10")
    case True
    then show ?thesis by (subst showNat.simps) (simp add: digit_char)
  next
    case False
    with 1 show ?thesis by (subst showNat.simps) (simp add: digit_char)
  qed
qed

lemma showNat_nonempty: "showNat n \<noteq> []"
  by (subst showNat.simps) simp

lemma toNumber_snoc: "toNumber (ds @ [c]) = 10 * toNumber ds + digitValue c"
  by (simp add: toNumber_def)

lemma toNumber_showNat: "toNumber (showNat n) = n"
proof (induction n rule: showNat.induct)
  case (1 n)
  show ?case
  proof (cases "n < 10")
    case True
    then show ?thesis by (subst showNat.simps) (simp add: digit_char toNumber_def)
  next
    case False
    with 1 show ?thesis by (subst showNat.simps) (simp add: digit_char toNumber_snoc)
  qed
qed

lemma showNat_numeric: "isNumericIdentifier (showNat n)"
proof -
  have "showNat n = ''0'' \<or> hd (showNat n) \<noteq> CHR ''0''"
  proof (induction n rule: showNat.induct)
    case (1 n)
    show ?case
    proof (cases "n < 10")
      case True
      show ?thesis using True
        by (subst (1 2) showNat.simps) auto
    next
      case False
      have "showNat (n div 10) \<noteq> ''0''"
      proof
        assume "showNat (n div 10) = ''0''"
        then have "toNumber (showNat (n div 10)) = 0" by (simp add: toNumber_def digitValue_def)
        then show False using False by (simp add: toNumber_showNat)
      qed
      with 1 False have "hd (showNat (n div 10)) \<noteq> CHR ''0''" by simp
      then show ?thesis using False showNat_nonempty [of "n div 10"]
        by (subst (1 2) showNat.simps) simp
    qed
  qed
  with showNat_digits [of n] showNat_nonempty [of n] show ?thesis
    by (simp add: isNumericIdentifier_def)
qed

lemma split_plain: "sep \<notin> set a \<Longrightarrow> split sep a = [a]"
  by (induction a) auto

lemma split_append: "sep \<notin> set a \<Longrightarrow> split sep (a @ sep # b) = a # split sep b"
  by (induction a) auto

lemma digits_plain: "list_all isDigit a \<Longrightarrow> c \<in> {CHR ''.'', CHR ''-'', CHR ''+''} \<Longrightarrow> c \<notin> set a"
  by (auto simp: list_all_iff isDigit_def)

text \<open>The text of a release \<open>M.m.p\<close> is a version without tags, and reads back as it was.\<close>

lemma format_release:
  fixes M m p :: nat
  defines "fs \<equiv> format (mkVersion M m p [])"
  shows "fs \<noteq> []" "isDigit (hd fs)"
    "split CHR ''.'' (mainPart fs) = [showNat M, showNat m, showNat p]"
    "validTags fs" "fst (tagsOf fs) = []"
proof -
  have fs: "fs = showNat M @ CHR ''.'' # showNat m @ CHR ''.'' # showNat p"
    by (simp add: fs_def format_def mkVersion_def)
  show "fs \<noteq> []" by (simp add: fs)
  show "isDigit (hd fs)"
    using showNat_digits [of M] showNat_nonempty [of M] by (cases "showNat M") (auto simp: fs)
  have all: "\<forall>c \<in> set fs. c \<noteq> CHR ''-'' \<and> c \<noteq> CHR ''+''"
    using digits_plain [OF showNat_digits, of "CHR ''-''"] digits_plain [OF showNat_digits, of "CHR ''+''"]
    by (auto simp: fs)
  then have main: "mainPart fs = fs" by (simp add: mainPart_def)
  from all have dw: "dropWhile (\<lambda>c. c \<noteq> CHR ''-'' \<and> c \<noteq> CHR ''+'') fs = []"
    "dropWhile (\<lambda>c. c \<noteq> CHR ''+'') fs = []" by auto
  have tags: "prereleasePart fs = None" "buildPart fs = None"
    unfolding prereleasePart_def buildPart_def dw by simp_all
  then show "validTags fs" "fst (tagsOf fs) = []" by (simp_all add: validTags_def tagsOf_def)
  have nd: "CHR ''.'' \<notin> set (showNat n)" for n
    using digits_plain [OF showNat_digits, of "CHR ''.''" n] by simp
  have "split CHR ''.'' fs = [showNat M, showNat m, showNat p]"
    unfolding fs by (simp add: split_append split_plain nd)
  then show "split CHR ''.'' (mainPart fs) = [showNat M, showNat m, showNat p]"
    by (simp only: main)
qed

section \<open>The two caret ranges of a prerelease baseline\<close>

lemma constructible_upper:
  "constructible s (caretUpper M m p) \<longleftrightarrow>
     major (caretUpper M m p) \<le> MAX_SAFE_INTEGER \<and> minor (caretUpper M m p) \<le> MAX_SAFE_INTEGER \<and>
     patch (caretUpper M m p) \<le> MAX_SAFE_INTEGER"
  by (simp add: constructible_def caretUpper_prerelease)

text \<open>The range \<^verbatim>\<open>^M.m.p\<close> built from the printed release, without \<^verbatim>\<open>includePrerelease\<close>.\<close>

lemma release_range:
  "newRange lib (CHR ''^'' # format (mkVersion M m p [])) False =
     (if constructible (format (mkVersion M m p [])) (mkVersion M m p []) \<and>
         constructible (format (mkVersion M m p [])) (caretUpper M m p)
      then Some [[replaceGTE0 False (Comparator Ge (mkVersion M m p [])),
                  Comparator Lt (caretUpper M m p)]]
      else None)"
proof -
  let ?fs = "format (mkVersion M m p [])"
  note f = format_release [of M m p]
  show ?thesis
    by (rule newRange_caret [OF f(1,2,3) showNat_numeric showNat_numeric showNat_numeric f(4)])
      (simp_all add: f(5) toNumber_showNat)
qed

text \<open>The range \<^verbatim>\<open>^baseline\<close> of a baseline that parses, with \<^verbatim>\<open>includePrerelease\<close>.\<close>

lemma baseline_range:
  assumes b: "parse (versionClear version) = Some baseline" and pre: "prerelease baseline \<noteq> []"
  shows "newRange lib (CHR ''^'' # versionClear version) True =
     (if constructible (versionClear version)
            (caretUpper (major baseline) (minor baseline) (patch baseline))
      then Some [[replaceGTE0 True (Comparator Ge
                    (mkVersion (major baseline) (minor baseline) (patch baseline) (prerelease baseline))),
                  Comparator Lt (caretUpper (major baseline) (minor baseline) (patch baseline))]]
      else None)"
proof -
  let ?vc = "versionClear version"
  from baseline_shape [OF b] have sh: "?vc \<noteq> []" "isDigit (hd ?vc)" "\<not> isWhiteSpace (last ?vc)"
    by simp_all
  from parse_clean [OF sh b] obtain M m p where
    len: "length ?vc \<le> MAX_LENGTH"
    and parts: "split CHR ''.'' (mainPart ?vc) = [M, m, p]"
      "isNumericIdentifier M" "isNumericIdentifier m" "isNumericIdentifier p" "validTags ?vc"
    and safe: "toNumber M \<le> MAX_SAFE_INTEGER" "toNumber m \<le> MAX_SAFE_INTEGER"
      "toNumber p \<le> MAX_SAFE_INTEGER"
    and bv: "baseline = \<lparr>major = toNumber M, minor = toNumber m, patch = toNumber p,
                  prerelease = fst (tagsOf ?vc), build = snd (tagsOf ?vc)\<rparr>"
    by auto
  from bv have fields: "major baseline = toNumber M" "minor baseline = toNumber m"
    "patch baseline = toNumber p" "prerelease baseline = fst (tagsOf ?vc)" by simp_all
  let ?l = "mkVersion (major baseline) (minor baseline) (patch baseline) (prerelease baseline)"
  let ?u = "caretUpper (major baseline) (minor baseline) (patch baseline)"
  have "length (takeWhile (\<lambda>c. c \<noteq> CHR ''+'') ?vc) \<le> length ?vc" by (rule length_takeWhile_le)
  with len safe have cl: "constructible ?vc ?l"
    by (simp add: constructible_def mkVersion_def fields(1-3))
  have "newRange lib (CHR ''^'' # ?vc) True =
     (if constructible ?vc ?l \<and> constructible ?vc ?u
      then Some [[replaceGTE0 True (Comparator Ge ?l), Comparator Lt ?u]] else None)"
    by (rule newRange_caret [OF sh(1,2) parts]) (use pre in \<open>simp_all add: fields\<close>)
  with cl show ?thesis by simp
qed

lemma compare_mkVersion:
  "compare x (mkVersion (major b) (minor b) (patch b) (prerelease b)) = compare x b"
  by (simp add: compare_def compareMain_def comparePre_def mkVersion_def)

text \<open>
  A published version that the release range admits and that exceeds the baseline is
  admitted by the baseline's own range as well.
\<close>

lemma release_range_within_baseline_range:
  assumes b: "parse (versionClear version) = Some baseline" and pre: "prerelease baseline \<noteq> []"
    and r1: "newRange lib (CHR ''^'' # format (releaseOf baseline)) False = Some R1"
    and sat: "satisfies R1 False w" and x: "parse w = Some x" and above: "compare x baseline > 0"
  shows "\<exists>R2. newRange lib (CHR ''^'' # versionClear version) True = Some R2 \<and> satisfies R2 True w"
proof -
  let ?vc = "versionClear version"
  let ?M = "major baseline" and ?m = "minor baseline" and ?p = "patch baseline"
  let ?u = "caretUpper ?M ?m ?p"
  let ?l2 = "mkVersion ?M ?m ?p (prerelease baseline)"
  let ?R2 = "[[replaceGTE0 True (Comparator Ge ?l2), Comparator Lt ?u]]"
  from r1 have cu: "constructible (format (mkVersion ?M ?m ?p [])) ?u"
    and R1: "R1 = [[replaceGTE0 False (Comparator Ge (mkVersion ?M ?m ?p [])), Comparator Lt ?u]]"
    by (auto simp: release_range releaseOf_def split: if_splits)
  from cu have "constructible ?vc ?u" by (simp add: constructible_upper)
  with baseline_range [OF b pre, of lib]
  have R2: "newRange lib (CHR ''^'' # ?vc) True = Some ?R2" by simp
  from sat x R1 have lt: "test (Comparator Lt ?u) x"
    by (auto simp: satisfies_def testRange_def testSet_def split: if_splits)
  from above have "test (Comparator Ge ?l2) x" by (simp add: compare_mkVersion)
  with replaceGTE0_Ge [of True ?l2] have ge: "test (replaceGTE0 True (Comparator Ge ?l2)) x"
    by auto
  from lt ge x have "satisfies ?R2 True w"
    by (simp add: satisfies_def testRange_def testSet_def)
  with R2 show ?thesis by blast
qed

text \<open>What the release range admits: the versions described by \<open>inReleaseCaret\<close>.\<close>

lemma satisfies_release_range:
  "satisfies [[replaceGTE0 False (Comparator Ge (releaseOf b)),
               Comparator Lt (caretUpper (major b) (minor b) (patch b))]] False v
   \<longleftrightarrow> inReleaseCaret b v"
proof (cases "parse v")
  case None
  then show ?thesis by (simp add: satisfies_def inReleaseCaret_def)
next
  case (Some x)
  let ?l = "releaseOf b" and ?u = "caretUpper (major b) (minor b) (patch b)"
  let ?R = "[[replaceGTE0 False (Comparator Ge ?l), Comparator Lt ?u]]"
  have pl: "prerelease ?l = []" by (simp add: releaseOf_def mkVersion_def)
  have rel: "prerelease x = []" if "testRange ?R False x"
    using caret_release_only [OF pl caretUpper_prerelease that] .
  have ge: "test (replaceGTE0 False (Comparator Ge ?l)) x \<longleftrightarrow> compare x ?l \<ge> 0"
    if "prerelease x = []"
  proof (cases "replaceGTE0 False (Comparator Ge ?l) = ANY")
    case True
    then have "?l = mkVersion 0 0 0 []" by (auto simp: replaceGTE0_def split: if_splits)
    then have "compare x ?l \<ge> 0"
      using that
      by (simp add: compare_def compareMain_def comparePre_def compareNumbers_def mkVersion_def)
    with True show ?thesis by simp
  next
    case False
    with replaceGTE0_Ge [of False ?l] show ?thesis by auto
  qed
  show ?thesis
  proof
    assume "satisfies ?R False v"
    with Some have t: "testRange ?R False x" by (simp add: satisfies_def)
    from rel [OF t] t ge show "inReleaseCaret b v"
      by (auto simp: inReleaseCaret_def Some testRange_def testSet_def split: if_splits)
  next
    assume "inReleaseCaret b v"
    with Some ge show "satisfies ?R False v"
      by (auto simp: inReleaseCaret_def satisfies_def testRange_def testSet_def)
  qed
qed

section \<open>The resolution with the protection enabled\<close>

lemma caret_string: "''^'' @ s = CHR ''^'' # s"
  by simp

lemma coerce_parsed:
  "parse s = Some b \<Longrightarrow> template (coerce lib s) = format (releaseOf b)"
  by (simp add: coerce_def template_def releaseOf_def)

lemma gt_parsed:
  "gt w s = Some g \<Longrightarrow> parse s = Some b \<Longrightarrow> \<exists>x. parse w = Some x \<and> g = (compare x b > 0)"
  by (auto simp: gt_def split: option.splits)

text \<open>What \<open>maxSatisfying\<close> returns on the printed release range.\<close>

lemma release_maximum:
  assumes "maxSatisfying lib V (CHR ''^'' # format (releaseOf b)) False = Some w"
  shows "isMaximumOf (filter (inReleaseCaret b) V) w \<and>
         (\<exists>R1. newRange lib (CHR ''^'' # format (releaseOf b)) False = Some R1 \<and> satisfies R1 False w)"
proof -
  let ?R = "[[replaceGTE0 False (Comparator Ge (releaseOf b)),
              Comparator Lt (caretUpper (major b) (minor b) (patch b))]]"
  from assms have R: "newRange lib (CHR ''^'' # format (releaseOf b)) False = Some ?R"
    by (auto simp: maxSatisfying_def release_range releaseOf_def split: if_splits)
  from maxSatisfying_result [OF R, of V] assms
  have "isMaximumOf (filter (satisfies ?R False) V) w"
    by (cases "filter (satisfies ?R False) V = []") auto
  moreover have "filter (satisfies ?R False) V = filter (inReleaseCaret b) V"
    by (simp add: satisfies_release_range cong: filter_cong)
  ultimately have mx: "isMaximumOf (filter (inReleaseCaret b) V) w" by simp
  then have "inReleaseCaret b w" by (simp add: isMaximumOf_def)
  then have "satisfies ?R False w" by (simp add: satisfies_release_range)
  with R mx show ?thesis by blast
qed

text \<open>
  C4. Let the baseline be a prerelease version, with the protection enabled. If the
  greatest published version without a prerelease tag in the caret range of the
  baseline's release exists and is greater than the baseline, the resolution returns it,
  whatever newer prereleases are published. Range \<^verbatim>\<open>^1.0.1-alpha\<close> over the
  published versions 1.0.0, 1.0.1-alpha, 1.0.1 gives 1.0.1.
\<close>

theorem prerelease_baseline_graduates:
  assumes b: "parse (versionClear version) = Some baseline"
    and pre: "prerelease baseline \<noteq> []"
    and m: "maxSatisfying lib packageVersions (''^'' @ format (releaseOf baseline)) False = Some release"
    and g: "gt release (versionClear version) = Some True"
  shows "getPackageLatestVersion lib True packageVersions version = Return (Some release) \<and>
         isMaximumOf (filter (inReleaseCaret baseline) packageVersions) release \<and>
         getPackageLatestVersion lib True [''1.0.0'', ''1.0.1-alpha'', ''1.0.1''] ''^1.0.1-alpha'' =
           Return (Some ''1.0.1'')"
proof -
  let ?vc = "versionClear version"
  have isPre: "(prerelease_of ?vc \<noteq> None) = True"
    using prerelease_of_parse [OF b] pre by simp
  from g have ne: "release \<noteq> []" by (auto simp: gt_def parse_Nil)
  from m have m': "maxSatisfying lib packageVersions (''^'' @ template (coerce lib ?vc)) False = Some release"
    by (simp add: coerce_parsed [OF b])
  have 1: "getPackageLatestVersion lib True packageVersions version = Return (Some release)"
    unfolding getPackageLatestVersion_def Let_def isPre m' using ne g by simp
  from m have 2: "isMaximumOf (filter (inReleaseCaret baseline) packageVersions) release"
    using release_maximum [of lib packageVersions baseline release] by simp
  have 3: "getPackageLatestVersion lib True [''1.0.0'', ''1.0.1-alpha'', ''1.0.1''] ''^1.0.1-alpha'' =
           Return (Some ''1.0.1'')"
    by code_simp
  from 1 2 3 show ?thesis by blast
qed

theorem prerelease_baseline_graduates_witness:
  "getPackageLatestVersion unreached True [''1.0.0'', ''1.0.1-alpha'', ''1.0.1'', ''1.0.2-beta''] ''^1.0.1-alpha'' =
     Return (Some ''1.0.1'') \<and>
   isMaximumOf (filter (inReleaseCaret
       \<lparr>major = 1, minor = 0, patch = 1, prerelease = [Str ''alpha''], build = []\<rparr>)
     [''1.0.0'', ''1.0.1-alpha'', ''1.0.1'', ''1.0.2-beta'']) ''1.0.1''"
proof -
  let ?V = "[''1.0.0'', ''1.0.1-alpha'', ''1.0.1'', ''1.0.2-beta'']"
  let ?b = "\<lparr>major = 1, minor = 0, patch = 1, prerelease = [Str ''alpha''], build = []\<rparr>"
  have b: "parse (versionClear ''^1.0.1-alpha'') = Some ?b" by code_simp
  have pre: "prerelease ?b \<noteq> []" by simp
  have m: "maxSatisfying unreached ?V (''^'' @ format (releaseOf ?b)) False = Some ''1.0.1''"
    by code_simp
  have g: "gt ''1.0.1'' (versionClear ''^1.0.1-alpha'') = Some True" by code_simp
  from prerelease_baseline_graduates [OF b pre m g] show ?thesis by blast
qed

text \<open>
  With a prerelease baseline, a release that the first step would prefer is itself in
  the baseline's range, so the greatest version of that range then exists and is not the
  baseline.
\<close>

lemma graduation_excludes_ceiling:
  assumes b: "parse (versionClear version) = Some baseline" and pre: "prerelease baseline \<noteq> []"
    and m: "maxSatisfying lib V (CHR ''^'' # format (releaseOf baseline)) False = Some w"
    and g: "gt w (versionClear version) = Some True"
  shows "\<exists>s. maxSatisfying lib V (CHR ''^'' # versionClear version) True = Some s \<and>
             s \<noteq> versionClear version"
proof -
  let ?vc = "versionClear version"
  from release_maximum [OF m] obtain R1 where
    mx: "isMaximumOf (filter (inReleaseCaret baseline) V) w"
    and R1: "newRange lib (CHR ''^'' # format (releaseOf baseline)) False = Some R1"
    and sat: "satisfies R1 False w" by blast
  from gt_parsed [OF g b] obtain x where x: "parse w = Some x" "compare x baseline > 0" by auto
  from release_range_within_baseline_range [OF b pre R1 sat x]
  obtain R2 where R2: "newRange lib (CHR ''^'' # ?vc) True = Some R2" "satisfies R2 True w"
    by blast
  from mx have "w \<in> set V" by (simp add: isMaximumOf_def)
  with R2(2) have wm: "w \<in> set (filter (satisfies R2 True) V)" by simp
  then have "filter (satisfies R2 True) V \<noteq> []" by (metis empty_iff list.set(1))
  with maxSatisfying_result [OF R2(1), of V] obtain s where
    s: "maxSatisfying lib V (CHR ''^'' # ?vc) True = Some s"
      "isMaximumOf (filter (satisfies R2 True) V) s" by blast
  from s(2) wm have "versionLE w s" by (simp add: isMaximumOf_def list_all_iff)
  have "s \<noteq> ?vc"
  proof
    assume "s = ?vc"
    with \<open>versionLE w s\<close> x(1) b have "compare x baseline \<le> 0" by (simp add: versionLE_def)
    with x(2) show False by simp
  qed
  with s(1) show ?thesis by blast
qed

text \<open>
  C2, as amended. Let the baseline parse, with the protection enabled. If the greatest
  published version in the caret range of the baseline (versions with a prerelease tag
  admitted iff the baseline has one) is absent, or is the baseline text itself, the
  resolution returns the latest version overall: null if no published version is a
  candidate of "any version at or above 0" (versions with a prerelease tag counted iff
  the baseline has one), and otherwise a candidate that no candidate exceeds in the
  library's comparison. In the precedence of semantic versioning it is at least every
  candidate, those apart where the candidate and the suggestion both have a prerelease
  identifier of digits that denotes \<open>2\<^sup>5\<^sup>3 - 1\<close> or more. Range \<^verbatim>\<open>^1.0.1\<close> over the
  published versions 1.0.0, 1.0.1, 2.0.0 gives 2.0.0.
\<close>

theorem ceiling_reached_suggests_latest:
  assumes b: "parse (versionClear version) = Some baseline"
    and h: "maxSatisfying lib packageVersions (''^'' @ versionClear version) (prerelease baseline \<noteq> []) = None \<or>
            maxSatisfying lib packageVersions (''^'' @ versionClear version) (prerelease baseline \<noteq> []) =
              Some (versionClear version)"
  shows
    "(anyVersion (prerelease baseline \<noteq> []) packageVersions = [] \<longrightarrow>
        getPackageLatestVersion lib True packageVersions version = Return None) \<and>
     (anyVersion (prerelease baseline \<noteq> []) packageVersions \<noteq> [] \<longrightarrow>
        (\<exists>s. getPackageLatestVersion lib True packageVersions version = Return (Some s) \<and>
             isMaximumOf (anyVersion (prerelease baseline \<noteq> []) packageVersions) s \<and>
             (\<forall>u \<in> set (anyVersion (prerelease baseline \<noteq> []) packageVersions).
                 smallNumerals u \<or> smallNumerals s \<longrightarrow> precedenceLE u s))) \<and>
     getPackageLatestVersion lib True [''1.0.0'', ''1.0.1'', ''2.0.0''] ''^1.0.1'' = Return (Some ''2.0.0'')"
proof -
  let ?vc = "versionClear version"
  let ?pre = "prerelease baseline \<noteq> []"
  let ?N = "maxSatisfying lib packageVersions (''^'' @ template (coerce lib ?vc)) False"
  let ?S = "maxSatisfying lib packageVersions (''^'' @ ?vc) ?pre"
  let ?L = "maxSatisfying lib packageVersions ''>=0'' ?pre"
  let ?early = "if ?pre then
                    (case ?N of
                       None \<Rightarrow> Return None
                     | Some versionNonPrerelease \<Rightarrow>
                         if versionNonPrerelease = [] then Return None
                         else (case gt versionNonPrerelease ?vc of
                                 None \<Rightarrow> Throw
                               | Some isGreater \<Rightarrow>
                                   Return (if isGreater then Some versionNonPrerelease else None)))
                  else Return None"
  have isPre: "(prerelease_of ?vc \<noteq> None) = ?pre" by (rule prerelease_of_parse [OF b])
  have early: "?early = Return None"
  proof (cases ?pre)
    case False
    then show ?thesis by simp
  next
    case True
    show ?thesis
    proof (cases ?N)
      case None
      with True show ?thesis by simp
    next
      case (Some w)
      then have m: "maxSatisfying lib packageVersions (CHR ''^'' # format (releaseOf baseline)) False = Some w"
        by (simp add: coerce_parsed [OF b])
      from release_maximum [OF m] have "inReleaseCaret baseline w" by (simp add: isMaximumOf_def)
      then obtain x where x: "parse w = Some x" by (auto simp: inReleaseCaret_def split: option.splits)
      with b have gt: "gt w ?vc = Some (compare x baseline > 0)" by (simp add: gt_def)
      have "\<not> compare x baseline > 0"
      proof
        assume "compare x baseline > 0"
        with gt have "gt w ?vc = Some True" by simp
        from graduation_excludes_ceiling [OF b True m this] h True show False by auto
      qed
      with gt True Some show ?thesis by simp
    qed
  qed
  have "getPackageLatestVersion lib True packageVersions version =
        (case ?early of
           Throw \<Rightarrow> Throw
         | Return (Some versionNonPrerelease) \<Rightarrow> Return (Some versionNonPrerelease)
         | Return None \<Rightarrow>
             if ?S = None \<or> ?S = Some [] \<or> Some ?vc = ?S then Return ?L else Return ?S)"
    unfolding getPackageLatestVersion_def Let_def isPre by simp
  also have "\<dots> = Return ?L" unfolding early using h by auto
  finally have res: "getPackageLatestVersion lib True packageVersions version = Return ?L" .
  have ex: "getPackageLatestVersion lib True [''1.0.0'', ''1.0.1'', ''2.0.0''] ''^1.0.1'' = Return (Some ''2.0.0'')"
    by code_simp
  let ?C = "anyVersion ?pre packageVersions"
  have 1: "?C = [] \<longrightarrow> getPackageLatestVersion lib True packageVersions version = Return None"
    using versionLatest_result [of ?pre packageVersions lib] res by simp
  have 2: "\<exists>s. getPackageLatestVersion lib True packageVersions version = Return (Some s) \<and>
             isMaximumOf ?C s \<and>
             (\<forall>u \<in> set ?C. smallNumerals u \<or> smallNumerals s \<longrightarrow> precedenceLE u s)"
    if "?C \<noteq> []"
  proof -
    from that versionLatest_result [of ?pre packageVersions lib]
    obtain s where s: "?L = Some s" "isMaximumOf ?C s" by blast
    from s(2) have "\<forall>u \<in> set ?C. smallNumerals u \<or> smallNumerals s \<longrightarrow> precedenceLE u s"
      using maximum_precedence [of ?C s] by blast
    with s res show ?thesis by simp
  qed
  from 1 2 ex show ?thesis by blast
qed

theorem ceiling_reached_suggests_latest_witness:
  "getPackageLatestVersion unreached True [''1.0.0'', ''1.0.1'', ''2.0.0''] ''^1.0.1'' =
     Return (Some ''2.0.0'') \<and>
   isMaximumOf (anyVersion False [''1.0.0'', ''1.0.1'', ''2.0.0'']) ''2.0.0'' \<and>
   precedenceLE ''1.0.1'' ''2.0.0'' \<and>
   maxSatisfying unreached [''1.0.0'', ''1.0.1'', ''2.0.0''] ''^1.0.1'' False = Some ''1.0.1''"
proof -
  let ?V = "[''1.0.0'', ''1.0.1'', ''2.0.0'']"
  let ?b = "\<lparr>major = 1, minor = 0, patch = 1, prerelease = [], build = []\<rparr>"
  have b: "parse (versionClear ''^1.0.1'') = Some ?b" by code_simp
  have s: "maxSatisfying unreached ?V ''^1.0.1'' False = Some ''1.0.1''" by code_simp
  have vc: "versionClear ''^1.0.1'' = ''1.0.1''" by code_simp
  have h: "maxSatisfying unreached ?V (''^'' @ versionClear ''^1.0.1'') (prerelease ?b \<noteq> []) = None \<or>
           maxSatisfying unreached ?V (''^'' @ versionClear ''^1.0.1'') (prerelease ?b \<noteq> []) =
             Some (versionClear ''^1.0.1'')"
    using s by (simp add: vc)
  have ne: "anyVersion False ?V \<noteq> []" by code_simp
  have r: "getPackageLatestVersion unreached True ?V ''^1.0.1'' = Return (Some ''2.0.0'')" by code_simp
  have u: "''1.0.1'' \<in> set (anyVersion False ?V)" "smallNumerals ''1.0.1''" by code_simp+
  from ceiling_reached_suggests_latest [OF b h] ne r u
  have "isMaximumOf (anyVersion False ?V) ''2.0.0'' \<and> precedenceLE ''1.0.1'' ''2.0.0''" by auto
  with r s show ?thesis by simp
qed

text \<open>
  The claim as stated fails where two published versions have prerelease identifiers of
  digits that denote different numbers and the same double. The baseline
  \<^verbatim>\<open>1.0.0-0\<close> is a prerelease; no published version lies in its caret range, nor in
  that of its release, so the resolution falls back to the latest version overall. Of
  the published versions \<^verbatim>\<open>2.0.0-9007199254740992.2\<close> and
  \<^verbatim>\<open>2.0.0-9007199254740993.1\<close> the second is the greater; the library finds the two
  identifiers equal and keeps the first version, which is returned.
\<close>

theorem ceiling_reached_suggests_latest_counterexample:
  "parse (versionClear ''^1.0.0-0'') =
     Some \<lparr>major = 1, minor = 0, patch = 0, prerelease = [Num 0], build = []\<rparr> \<and>
   maxSatisfying unreached [''2.0.0-9007199254740992.2'', ''2.0.0-9007199254740993.1'']
     (''^'' @ versionClear ''^1.0.0-0'') True = None \<and>
   getPackageLatestVersion unreached True
     [''2.0.0-9007199254740992.2'', ''2.0.0-9007199254740993.1''] ''^1.0.0-0'' =
     Return (Some ''2.0.0-9007199254740992.2'') \<and>
   anyVersion True [''2.0.0-9007199254740992.2'', ''2.0.0-9007199254740993.1''] =
     [''2.0.0-9007199254740992.2'', ''2.0.0-9007199254740993.1''] \<and>
   precedenceLE ''2.0.0-9007199254740992.2'' ''2.0.0-9007199254740993.1'' \<and>
   \<not> precedenceLE ''2.0.0-9007199254740993.1'' ''2.0.0-9007199254740992.2''"
  by code_simp

end
